theory Spec2Isabelle
  imports Main "HOL-Library.Word" "HOL-Library.AList"
begin

section \<open>Values, errors and the library functions the code calls\<close>

text \<open>
  The exceptions that can leave the code of \<^verbatim>\<open>axis/__init__.py\<close>. \<open>KeyError\<close> is
  raised by the dictionary lookups of \<^verbatim>\<open>_monitor_recv\<close> and caught there;
  \<open>TypeError\<close> is what Python's \<^verbatim>\<open>int()\<close> raises on the local \<^verbatim>\<open>_dummy\<close> object,
  which has no \<^verbatim>\<open>__int__\<close>.
\<close>

datatype error =
  AttributeError | AXIS_ProtocolError | ValueError | IndexError | TypeError | KeyError

type_synonym byte = "8 word"

definition bind :: "error + 'a \<Rightarrow> ('a \<Rightarrow> error + 'b) \<Rightarrow> error + 'b" where
  "bind m f = (case m of Inl e \<Rightarrow> Inl e | Inr x \<Rightarrow> f x)"

text \<open>
  \<^verbatim>\<open>cocotb.binary.resolve\<close> at the library's default setting: the weak zeros
  \<^verbatim>\<open>-lL\<close> become \<^verbatim>\<open>0\<close>, the weak ones \<^verbatim>\<open>hH\<close> become \<^verbatim>\<open>1\<close>, and an unknown bit
  (\<^verbatim>\<open>xXzZuUwW\<close>) raises \<^verbatim>\<open>ValueError\<close>.
\<close>

definition resolve_char :: "char \<Rightarrow> error + char" where
  "resolve_char c =
     (if c \<in> set ''-lL'' then Inr CHR ''0''
      else if c \<in> set ''hH'' then Inr CHR ''1''
      else if c \<in> set ''xXzZuUwW'' then Inl ValueError
      else Inr c)"

fun resolve :: "string \<Rightarrow> error + string" where
  "resolve [] = Inr []"
| "resolve (c # cs) =
     (case resolve_char c of
        Inl e \<Rightarrow> Inl e
      | Inr d \<Rightarrow> (case resolve cs of Inl e \<Rightarrow> Inl e | Inr ds \<Rightarrow> Inr (d # ds)))"

text \<open>
  Python's \<^verbatim>\<open>int(s, 2)\<close> on a string of signal characters: the empty string and any
  character other than \<^verbatim>\<open>0\<close> and \<^verbatim>\<open>1\<close> raise \<^verbatim>\<open>ValueError\<close>.
\<close>

definition bin_digit :: "char \<Rightarrow> nat option" where
  "bin_digit c =
     (if c = CHR ''0'' then Some 0 else if c = CHR ''1'' then Some 1 else None)"

fun int2_acc :: "nat \<Rightarrow> string \<Rightarrow> error + nat" where
  "int2_acc a [] = Inr a"
| "int2_acc a (c # cs) =
     (case bin_digit c of None \<Rightarrow> Inl ValueError | Some d \<Rightarrow> int2_acc (2 * a + d) cs)"

definition int2 :: "string \<Rightarrow> error + nat" where
  "int2 s = (if s = [] then Inl ValueError else int2_acc 0 s)"

text \<open>\<^verbatim>\<open>int(handle)\<close>: the signal's value is resolved and read as a binary number.\<close>

definition handle_int :: "string \<Rightarrow> error + nat" where
  "handle_int s = bind (resolve s) int2"

text \<open>\<^verbatim>\<open>"{:08b}".format(b)\<close> for a byte: eight binary digits, most significant first.\<close>

fun bin_digits :: "nat \<Rightarrow> nat \<Rightarrow> string" where
  "bin_digits 0 n = []"
| "bin_digits (Suc k) n = bin_digits k (n div 2) @ [if odd n then CHR ''1'' else CHR ''0'']"

definition format08b :: "byte \<Rightarrow> string" where
  "format08b b = bin_digits 8 (unat b)"

text \<open>Python's \<^verbatim>\<open>s[i:j]\<close> for \<open>0 \<le> i\<close>, and \<^verbatim>\<open>s[b]\<close>, which raises out of range.\<close>

definition list_slice :: "'a list \<Rightarrow> nat \<Rightarrow> nat \<Rightarrow> 'a list" where
  "list_slice s i j = take (j - i) (drop i s)"

definition str_at :: "string \<Rightarrow> nat \<Rightarrow> error + char" where
  "str_at s b = (if b < length s then Inr (s ! b) else Inl IndexError)"

definition repeat_str :: "nat \<Rightarrow> string \<Rightarrow> string" where
  "repeat_str k s = concat (replicate k s)"

section \<open>The bus\<close>

text \<open>
  Which optional signals the bus has (\<^verbatim>\<open>hasattr(self.bus, ...)\<close>), fixed when the
  bus is built, and the value of every signal as its \<^verbatim>\<open>binstr\<close>. The value of a
  signal the bus does not have is never read. A signal handle is true in a
  condition exactly when the signal is there, its length being positive.
\<close>

record bus_caps =
  has_tdata :: bool
  has_tkeep :: bool
  has_tready :: bool
  has_tlast :: bool
  has_tstrb :: bool
  has_tid :: bool
  has_tdest :: bool
  has_tuser :: bool

record signals =
  tvalid :: string
  tdata :: string
  tkeep :: string
  tready :: string
  tlast :: string
  tstrb :: string
  tid :: string
  tdest :: string
  tuser :: string

section \<open>AXIS_Master\<close>

record master =
  m_n_bytes :: nat
  m_lsb_first :: bool

definition idle_outputs :: "master \<Rightarrow> bus_caps \<Rightarrow> signals \<Rightarrow> signals" where
  "idle_outputs m caps bus =
     (let b0 = bus\<lparr>tvalid := ''0''\<rparr>;
          b1 = (if has_tdata caps then b0\<lparr>tdata := replicate (length (tdata b0)) CHR ''x''\<rparr> else b0);
          b2 = (if has_tlast caps then b1\<lparr>tlast := ''x''\<rparr> else b1);
          b3 = (if has_tkeep caps then b2\<lparr>tkeep := replicate (m_n_bytes m) CHR ''x''\<rparr> else b2);
          b4 = (if has_tstrb caps then b3\<lparr>tstrb := replicate (m_n_bytes m) CHR ''x''\<rparr> else b3);
          b5 = (if has_tid caps then b4\<lparr>tid := replicate (length (tid b4)) CHR ''x''\<rparr> else b4);
          b6 = (if has_tdest caps then b5\<lparr>tdest := replicate (length (tdest b5)) CHR ''x''\<rparr> else b5)
      in if has_tuser caps then b6\<lparr>tuser := replicate (length (tuser b6)) CHR ''x''\<rparr> else b6)"

text \<open>
  \<^verbatim>\<open>AXIS_Master.__init__\<close>: the width of \<^verbatim>\<open>tdata\<close> is the length of its value. On
  success the outputs are driven to their idle values.
\<close>

definition AXIS_Master_init :: "bus_caps \<Rightarrow> signals \<Rightarrow> bool \<Rightarrow> error + (master \<times> signals)" where
  "AXIS_Master_init caps bus lsbf =
     (if has_tdata caps then
        (if length (tdata bus) mod 8 \<noteq> 0 then Inl AttributeError
         else (let m = \<lparr>m_n_bytes = length (tdata bus) div 8, m_lsb_first = lsbf\<rparr>
               in Inr (m, idle_outputs m caps bus)))
      else (let m = \<lparr>m_n_bytes = 1, m_lsb_first = lsbf\<rparr> in Inr (m, idle_outputs m caps bus)))"

definition padstr :: "bool \<Rightarrow> string" where
  "padstr padZero = (if padZero then ''00000000'' else ''XXXXXXXX'')"

text \<open>
  The body of the loop of \<^verbatim>\<open>_send_bytes\<close> for one offset, in the order of the
  source: \<^verbatim>\<open>last_word\<close> and \<^verbatim>\<open>padbytes\<close>, then \<^verbatim>\<open>binstr\<close> and \<^verbatim>\<open>keepstr\<close>, then
  the signals as they stand at the clock edge that follows. The cycles in which
  the driver is gated off transfer nothing and are not listed. Driving \<^verbatim>\<open>tdata\<close>
  on a bus without it raises \<^verbatim>\<open>AttributeError\<close>.
\<close>

definition last_word :: "nat \<Rightarrow> nat \<Rightarrow> nat \<Rightarrow> bool" where
  "last_word n len offset = (if offset + n < len then False else True)"

definition padbytes :: "nat \<Rightarrow> nat \<Rightarrow> nat \<Rightarrow> nat" where
  "padbytes n len offset = (if offset + n < len then 0 else offset + n - len)"

definition word_binstr :: "master \<Rightarrow> bool \<Rightarrow> byte list \<Rightarrow> nat \<Rightarrow> string" where
  "word_binstr m padZero bytestr offset =
     (let n = m_n_bytes m;
          pad = padbytes n (length bytestr) offset;
          bytelist0 = list_slice bytestr offset (offset + n);
          bytelist = (if m_lsb_first m then rev bytelist0 else bytelist0);
          binstr = concat (map format08b bytelist)
      in if pad \<noteq> 0 then
           (if m_lsb_first m then repeat_str pad (padstr padZero) @ binstr
            else binstr @ repeat_str pad (padstr padZero))
         else binstr)"

definition word_keepstr :: "master \<Rightarrow> byte list \<Rightarrow> nat \<Rightarrow> string" where
  "word_keepstr m bytestr offset =
     (let n = m_n_bytes m;
          pad = padbytes n (length bytestr) offset
      in if pad \<noteq> 0 then
           (if m_lsb_first m
            then replicate pad CHR ''0'' @ replicate (n - pad) CHR ''1''
            else replicate (n - pad) CHR ''1'' @ replicate pad CHR ''0'')
         else replicate n CHR ''1'')"

definition drive_word ::
  "master \<Rightarrow> bus_caps \<Rightarrow> bool \<Rightarrow> byte list \<Rightarrow> nat \<Rightarrow> signals \<Rightarrow> error + signals" where
  "drive_word m caps padZero bytestr offset bus =
     (let bus1 = bus\<lparr>tvalid := ''1''\<rparr>;
          bus2 = (if has_tlast caps
                  then bus1\<lparr>tlast := (if last_word (m_n_bytes m) (length bytestr) offset
                                        then ''1'' else ''0'')\<rparr>
                  else bus1)
      in if \<not> has_tdata caps then Inl AttributeError
         else (let bus3 = bus2\<lparr>tdata := word_binstr m padZero bytestr offset\<rparr>;
                   bus4 = (if has_tkeep caps then bus3\<lparr>tkeep := word_keepstr m bytestr offset\<rparr>
                           else bus3)
               in Inr (if has_tstrb caps then bus4\<lparr>tstrb := word_keepstr m bytestr offset\<rparr>
                       else bus4)))"

text \<open>
  After the clock edge, on a bus with \<^verbatim>\<open>tready\<close>, the driver waits:
  \<^verbatim>\<open>while not int(self.bus.tready)\<close>. The bus holds the value the receiver
  drives. A value that does not resolve raises \<^verbatim>\<open>ValueError\<close>; while the value
  reads 0 the loop does not end, and the result is \<open>None\<close>.
\<close>

partial_function (option) wait_ready :: "bus_caps \<Rightarrow> signals \<Rightarrow> (error + unit) option" where
  "wait_ready caps bus =
     (if has_tready caps then
        (case handle_int (tready bus) of
           Inl e \<Rightarrow> Some (Inl e)
         | Inr r \<Rightarrow> (if r = 0 then wait_ready caps bus else Some (Inr ())))
      else Some (Inr ()))"

declare wait_ready.simps [code]

text \<open>\<^verbatim>\<open>range(0, len, n)\<close> for a positive step.\<close>

definition range_step :: "nat \<Rightarrow> nat \<Rightarrow> nat list" where
  "range_step len n = map (\<lambda>k. k * n) [0 ..< (len + n - 1) div n]"

text \<open>
  The loop over the offsets: the words transferred, each once its wait has ended,
  and the bus after the last of them. \<open>None\<close> when a wait does not end.
\<close>

fun send_loop ::
  "master \<Rightarrow> bus_caps \<Rightarrow> bool \<Rightarrow> byte list \<Rightarrow> signals \<Rightarrow> nat list
     \<Rightarrow> (error + (signals list \<times> signals)) option" where
  "send_loop m caps padZero bytestr bus [] = Some (Inr ([], bus))"
| "send_loop m caps padZero bytestr bus (offset # offsets) =
     (case drive_word m caps padZero bytestr offset bus of
        Inl e \<Rightarrow> Some (Inl e)
      | Inr bus' \<Rightarrow>
          (case wait_ready caps bus' of
             None \<Rightarrow> None
           | Some (Inl e) \<Rightarrow> Some (Inl e)
           | Some (Inr u) \<Rightarrow>
               (case send_loop m caps padZero bytestr bus' offsets of
                  None \<Rightarrow> None
                | Some (Inl e) \<Rightarrow> Some (Inl e)
                | Some (Inr (ws, busf)) \<Rightarrow> Some (Inr (bus' # ws, busf)))))"

text \<open>
  \<^verbatim>\<open>_send_bytes\<close>: the transferred words in order, and the bus as it is left
  (idle). A step of zero makes \<^verbatim>\<open>range\<close> raise \<^verbatim>\<open>ValueError\<close>.
\<close>

definition send_bytes ::
  "master \<Rightarrow> bus_caps \<Rightarrow> bool \<Rightarrow> byte list \<Rightarrow> signals
     \<Rightarrow> (error + (signals list \<times> signals)) option" where
  "send_bytes m caps padZero bytestr bus =
     (if m_n_bytes m = 0 then Some (Inl ValueError)
      else (case send_loop m caps padZero bytestr bus (range_step (length bytestr) (m_n_bytes m)) of
              None \<Rightarrow> None
            | Some (Inl e) \<Rightarrow> Some (Inl e)
            | Some (Inr (ws, busf)) \<Rightarrow> Some (Inr (ws, idle_outputs m caps busf))))"

section \<open>AXIS_Monitor\<close>

record monitor =
  n_bytes :: nat
  lsb_first :: bool
  tuser_bytewise :: bool
  user_bits :: nat

text \<open>
  \<^verbatim>\<open>AXIS_Monitor.__init__\<close>. Without \<^verbatim>\<open>tuser\<close> the attributes \<^verbatim>\<open>_tuser_bytewise\<close> and
  \<^verbatim>\<open>_user_bits\<close> are not set and never read; the record holds the argument and 0.
\<close>

definition AXIS_Monitor_init :: "bus_caps \<Rightarrow> signals \<Rightarrow> bool \<Rightarrow> bool \<Rightarrow> error + monitor" where
  "AXIS_Monitor_init caps bus lsbf bytewise =
     (if has_tdata caps \<and> length (tdata bus) mod 8 \<noteq> 0 then Inl AttributeError
      else (let n = (if has_tdata caps then length (tdata bus) div 8 else 1)
            in if has_tuser caps then
                 (if bytewise \<and> n \<noteq> 0 then
                    (if length (tuser bus) mod n \<noteq> 0 then Inl AttributeError
                     else Inr \<lparr>n_bytes = n, lsb_first = lsbf, tuser_bytewise = bytewise,
                               user_bits = length (tuser bus) div n\<rparr>)
                  else Inr \<lparr>n_bytes = n, lsb_first = lsbf, tuser_bytewise = bytewise,
                            user_bits = length (tuser bus)\<rparr>)
               else Inr \<lparr>n_bytes = n, lsb_first = lsbf, tuser_bytewise = bytewise, user_bits = 0\<rparr>))"

text \<open>The qualifier strings the loop reads: the defaults of the \<^verbatim>\<open>getattr\<close> calls.\<close>

definition keep_binstr :: "monitor \<Rightarrow> bus_caps \<Rightarrow> signals \<Rightarrow> string" where
  "keep_binstr cfg caps s = (if has_tkeep caps then tkeep s else replicate (n_bytes cfg) CHR ''1'')"

definition strb_binstr :: "monitor \<Rightarrow> bus_caps \<Rightarrow> signals \<Rightarrow> string" where
  "strb_binstr cfg caps s = (if has_tstrb caps then tstrb s else keep_binstr cfg caps s)"

definition byte_type :: "monitor \<Rightarrow> bus_caps \<Rightarrow> signals \<Rightarrow> nat \<Rightarrow> error + string" where
  "byte_type cfg caps s b =
     bind (str_at (keep_binstr cfg caps s) b) (\<lambda>k.
     bind (str_at (strb_binstr cfg caps s) b) (\<lambda>t. resolve [k, t]))"

definition byte_range :: "monitor \<Rightarrow> nat list" where
  "byte_range cfg = (if lsb_first cfg then rev [0 ..< n_bytes cfg] else [0 ..< n_bytes cfg])"

text \<open>The value of lane \<open>b\<close> of \<^verbatim>\<open>tdata\<close>, and of its share of \<^verbatim>\<open>tuser\<close>.\<close>

definition lane_data :: "signals \<Rightarrow> nat \<Rightarrow> error + nat" where
  "lane_data s b = bind (resolve (list_slice (tdata s) (b * 8) ((b + 1) * 8))) int2"

definition lane_user :: "monitor \<Rightarrow> signals \<Rightarrow> nat \<Rightarrow> error + nat" where
  "lane_user cfg s b =
     bind (resolve (list_slice (tuser s) (b * user_bits cfg) ((b + 1) * user_bits cfg))) int2"

text \<open>The body of the loop over the lanes, on the two lists it appends to.\<close>

definition lane_step ::
  "monitor \<Rightarrow> bus_caps \<Rightarrow> signals \<Rightarrow> nat \<Rightarrow> nat list \<times> nat list \<Rightarrow> error + (nat list \<times> nat list)" where
  "lane_step cfg caps s b acc =
     bind (byte_type cfg caps s b) (\<lambda>bt.
       if bt = ''11'' then
         bind (if has_tdata caps
               then bind (lane_data s b) (\<lambda>v. Inr (fst acc @ [v]))
               else Inr (fst acc)) (\<lambda>fd.
         bind (if has_tuser caps \<and> tuser_bytewise cfg
               then bind (lane_user cfg s b) (\<lambda>u. Inr (snd acc @ [u]))
               else Inr (snd acc)) (\<lambda>fu. Inr (fd, fu)))
       else if bt = ''10'' then
         Inr (if has_tdata caps then fst acc @ [0] else fst acc,
              if has_tuser caps \<and> tuser_bytewise cfg then snd acc @ [0] else snd acc)
       else if bt = ''01'' then Inl AXIS_ProtocolError
       else Inr acc)"

fun lanes_loop ::
  "monitor \<Rightarrow> bus_caps \<Rightarrow> signals \<Rightarrow> nat list \<Rightarrow> nat list \<times> nat list \<Rightarrow> error + (nat list \<times> nat list)" where
  "lanes_loop cfg caps s [] acc = Inr acc"
| "lanes_loop cfg caps s (b # bs) acc =
     (case lane_step cfg caps s b acc of
        Inl e \<Rightarrow> Inl e
      | Inr acc' \<Rightarrow> lanes_loop cfg caps s bs acc')"

definition decode_lanes :: "monitor \<Rightarrow> bus_caps \<Rightarrow> signals \<Rightarrow> error + (nat list \<times> nat list)" where
  "decode_lanes cfg caps s = lanes_loop cfg caps s (byte_range cfg) ([], [])"

text \<open>
  Packets as received (\<^verbatim>\<open>recv_pkt\<close>: a key the dictionary lacks is \<open>None\<close>) and the
  entries of \<^verbatim>\<open>packet_buf\<close>, a dictionary kept in insertion order.
\<close>

datatype user_field = UserBytes "nat list" | UserWord string

record packet =
  pkt_data :: "byte list option"
  pkt_user :: "user_field option"
  pkt_tid :: "nat option"
  pkt_tdest :: "nat option"

record pending =
  buf_data :: "byte list list option"
  buf_user :: "nat list option"

type_synonym stream_id = "nat option \<times> nat option"
type_synonym packet_buf = "(stream_id \<times> pending) list"

text \<open>\<^verbatim>\<open>bytes(filtered_data)\<close>; every element comes from at most eight bits.\<close>

definition bytes_of :: "nat list \<Rightarrow> byte list" where
  "bytes_of fd = map of_nat fd"

definition stream_id_of :: "bus_caps \<Rightarrow> signals \<Rightarrow> error + stream_id" where
  "stream_id_of caps s =
     bind (if has_tid caps then bind (handle_int (tid s)) (\<lambda>i. Inr (Some i)) else Inr None) (\<lambda>i.
     bind (if has_tdest caps then bind (handle_int (tdest s)) (\<lambda>d. Inr (Some d)) else Inr None) (\<lambda>d.
     Inr (i, d)))"

text \<open>\<^verbatim>\<open>packet_buf[stream_id][key]\<close>.\<close>

definition buffered :: "packet_buf \<Rightarrow> stream_id \<Rightarrow> (pending \<Rightarrow> 'a option) \<Rightarrow> error + 'a" where
  "buffered buf sid field =
     (case map_of buf sid of
        None \<Rightarrow> Inl KeyError
      | Some p \<Rightarrow> (case field p of None \<Rightarrow> Inl KeyError | Some v \<Rightarrow> Inr v))"

text \<open>The \<^verbatim>\<open>try\<close> block of a last word, up to the call of \<^verbatim>\<open>self._recv\<close>.\<close>

definition recv_last_try ::
  "monitor \<Rightarrow> bus_caps \<Rightarrow> packet_buf \<Rightarrow> stream_id \<Rightarrow> signals \<Rightarrow> nat list \<Rightarrow> nat list \<Rightarrow> error + packet" where
  "recv_last_try cfg caps buf sid s fd fu =
     bind (if has_tdata caps
           then bind (buffered buf sid buf_data) (\<lambda>chs. Inr (Some (concat chs @ bytes_of fd)))
           else Inr None) (\<lambda>d.
     bind (if has_tuser caps then
             (if tuser_bytewise cfg
              then bind (buffered buf sid buf_user) (\<lambda>us. Inr (Some (UserBytes (us @ fu))))
              else bind (resolve (tuser s)) (\<lambda>r. Inr (Some (UserWord r))))
           else Inr None) (\<lambda>u.
     Inr \<lparr>pkt_data = d, pkt_user = u, pkt_tid = fst sid, pkt_tdest = snd sid\<rparr>))"

text \<open>The \<^verbatim>\<open>except KeyError\<close> block of a last word: it fills \<^verbatim>\<open>recv_pkt\<close> and ends.\<close>

definition recv_last_except ::
  "monitor \<Rightarrow> bus_caps \<Rightarrow> stream_id \<Rightarrow> signals \<Rightarrow> nat list \<Rightarrow> nat list \<Rightarrow> error + packet" where
  "recv_last_except cfg caps sid s fd fu =
     bind (if has_tuser caps then
             (if tuser_bytewise cfg then Inr (Some (UserBytes fu))
              else bind (resolve (tuser s)) (\<lambda>r. Inr (Some (UserWord r))))
           else Inr None) (\<lambda>u.
     Inr \<lparr>pkt_data = (if has_tdata caps then Some (bytes_of fd) else None),
          pkt_user = u, pkt_tid = fst sid, pkt_tdest = snd sid\<rparr>)"

text \<open>
  A last word: the new \<^verbatim>\<open>packet_buf\<close> and the packets handed to \<^verbatim>\<open>self._recv\<close>.
  The \<^verbatim>\<open>del\<close> after the call raises \<^verbatim>\<open>KeyError\<close> too when the key is not buffered.
\<close>

definition recv_last ::
  "monitor \<Rightarrow> bus_caps \<Rightarrow> packet_buf \<Rightarrow> stream_id \<Rightarrow> signals \<Rightarrow> nat list \<Rightarrow> nat list
     \<Rightarrow> error + (packet_buf \<times> packet list)" where
  "recv_last cfg caps buf sid s fd fu =
     (case recv_last_try cfg caps buf sid s fd fu of
        Inr pkt \<Rightarrow>
          (case map_of buf sid of
             Some p \<Rightarrow> Inr (AList.delete sid buf, [pkt])
           | None \<Rightarrow>
               (case recv_last_except cfg caps sid s fd fu of
                  Inl e \<Rightarrow> Inl e
                | Inr rebuilt \<Rightarrow> Inr (buf, [pkt])))
      | Inl e \<Rightarrow>
          (if e = KeyError then
             (case recv_last_except cfg caps sid s fd fu of
                Inl e' \<Rightarrow> Inl e'
              | Inr rebuilt \<Rightarrow> Inr (buf, []))
           else Inl e))"

text \<open>A word that is not last: the \<^verbatim>\<open>try\<close> block on the buffered entry.\<close>

definition pending_append ::
  "monitor \<Rightarrow> bus_caps \<Rightarrow> pending \<Rightarrow> nat list \<Rightarrow> nat list \<Rightarrow> error + pending" where
  "pending_append cfg caps p fd fu =
     bind (if has_tdata caps then
             (case buf_data p of
                None \<Rightarrow> Inl KeyError
              | Some chs \<Rightarrow> Inr (p\<lparr>buf_data := Some (chs @ [bytes_of fd])\<rparr>))
           else Inr p) (\<lambda>p1.
     if has_tuser caps \<and> tuser_bytewise cfg then
       (case buf_user p1 of
          None \<Rightarrow> Inl KeyError
        | Some us \<Rightarrow> Inr (p1\<lparr>buf_user := Some (us @ fu)\<rparr>))
     else Inr p1)"

definition fresh_pending :: "monitor \<Rightarrow> bus_caps \<Rightarrow> nat list \<Rightarrow> nat list \<Rightarrow> pending" where
  "fresh_pending cfg caps fd fu =
     \<lparr>buf_data = (if has_tdata caps then Some [bytes_of fd] else None),
      buf_user = (if has_tuser caps \<and> tuser_bytewise cfg then Some fu else None)\<rparr>"

definition recv_more ::
  "monitor \<Rightarrow> bus_caps \<Rightarrow> packet_buf \<Rightarrow> stream_id \<Rightarrow> nat list \<Rightarrow> nat list \<Rightarrow> packet_buf" where
  "recv_more cfg caps buf sid fd fu =
     (if \<not> has_tdata caps \<and> \<not> (has_tuser caps \<and> tuser_bytewise cfg) then buf
      else (case map_of buf sid of
              None \<Rightarrow> AList.update sid (fresh_pending cfg caps fd fu) buf
            | Some p \<Rightarrow>
                (case pending_append cfg caps p fd fu of
                   Inr p' \<Rightarrow> AList.update sid p' buf
                 | Inl e \<Rightarrow> AList.update sid (fresh_pending cfg caps fd fu) buf)))"

text \<open>\<^verbatim>\<open>not tlast or int(tlast)\<close>: without the signal every word is a last word.\<close>

definition last_flag :: "bus_caps \<Rightarrow> signals \<Rightarrow> error + bool" where
  "last_flag caps s =
     (if has_tlast caps then bind (handle_int (tlast s)) (\<lambda>l. Inr (l \<noteq> 0)) else Inr True)"

text \<open>
  One pass of the loop of \<^verbatim>\<open>_monitor_recv\<close>, at the point of the cycle where the
  values are stable: the new \<^verbatim>\<open>packet_buf\<close> and the packets handed on, or the
  exception that ends the coroutine. \<^verbatim>\<open>int(tready)\<close> is evaluated only when
  \<^verbatim>\<open>int(tvalid)\<close> is not zero; on a bus without \<^verbatim>\<open>tready\<close> its operand is the
  \<^verbatim>\<open>_dummy\<close> object and the call raises \<^verbatim>\<open>TypeError\<close>.
\<close>

record cycle =
  in_reset :: bool
  sigs :: signals

definition monitor_cycle ::
  "monitor \<Rightarrow> bus_caps \<Rightarrow> packet_buf \<Rightarrow> cycle \<Rightarrow> error + (packet_buf \<times> packet list)" where
  "monitor_cycle cfg caps buf c =
     (if in_reset c then Inr (if buf \<noteq> [] then [] else buf, [])
      else
        bind (handle_int (tvalid (sigs c))) (\<lambda>v.
        if v = 0 then Inr (buf, [])
        else
          bind (if has_tready caps then handle_int (tready (sigs c)) else Inl TypeError) (\<lambda>r.
          if r = 0 then Inr (buf, [])
          else
            bind (decode_lanes cfg caps (sigs c)) (\<lambda>acc.
            bind (stream_id_of caps (sigs c)) (\<lambda>sid.
            bind (last_flag caps (sigs c)) (\<lambda>is_last.
            if is_last then recv_last cfg caps buf sid (sigs c) (fst acc) (snd acc)
            else Inr (recv_more cfg caps buf sid (fst acc) (snd acc), [])))))))"

text \<open>
  The loop over the cycles of a run: the packets handed on, in order, and either
  the \<^verbatim>\<open>packet_buf\<close> at the end or the exception that ended the coroutine, after
  which no cycle is looked at.
\<close>

fun monitor_recv ::
  "monitor \<Rightarrow> bus_caps \<Rightarrow> packet_buf \<Rightarrow> cycle list \<Rightarrow> packet list \<times> (error + packet_buf)" where
  "monitor_recv cfg caps buf [] = ([], Inr buf)"
| "monitor_recv cfg caps buf (c # cs) =
     (case monitor_cycle cfg caps buf c of
        Inl e \<Rightarrow> ([], Inl e)
      | Inr (buf', out) \<Rightarrow>
          (case monitor_recv cfg caps buf' cs of (ps, r) \<Rightarrow> (out @ ps, r)))"

definition on_bus :: "signals \<Rightarrow> cycle" where
  "on_bus s = \<lparr>in_reset = False, sigs = s\<rparr>"

section \<open>Properties stated about single words and runs\<close>

definition is_ok :: "error + 'a \<Rightarrow> bool" where
  "is_ok r = (case r of Inl e \<Rightarrow> False | Inr x \<Rightarrow> True)"

text \<open>
  A lane is readable when its two qualifier bits resolve and, for a data lane,
  so do the bits the loop reads for it.
\<close>

definition lane_readable :: "monitor \<Rightarrow> bus_caps \<Rightarrow> signals \<Rightarrow> nat \<Rightarrow> bool" where
  "lane_readable cfg caps s b =
     (case byte_type cfg caps s b of
        Inl e \<Rightarrow> False
      | Inr bt \<Rightarrow>
          bt \<noteq> ''11'' \<or>
          ((\<not> has_tdata caps \<or> is_ok (lane_data s b)) \<and>
           (\<not> (has_tuser caps \<and> tuser_bytewise cfg) \<or> is_ok (lane_user cfg s b))))"

text \<open>A cycle that transfers a word: out of reset, with both handshake signals read as set.\<close>

definition transfers :: "bus_caps \<Rightarrow> cycle \<Rightarrow> bool" where
  "transfers caps c =
     (\<not> in_reset c \<and> has_tready caps \<and>
      (case handle_int (tvalid (sigs c)) of Inl e \<Rightarrow> False | Inr v \<Rightarrow> v \<noteq> 0) \<and>
      (case handle_int (tready (sigs c)) of Inl e \<Rightarrow> False | Inr r \<Rightarrow> r \<noteq> 0))"

text \<open>
  The buses and instances of the examples: a 32-bit stream with \<^verbatim>\<open>tdata\<close>,
  \<^verbatim>\<open>tkeep\<close>, \<^verbatim>\<open>tstrb\<close>, \<^verbatim>\<open>tlast\<close> and \<^verbatim>\<open>tready\<close>, the receiver ready; the same with
  a two-bit \<^verbatim>\<open>tid\<close>; the same with a four-bit \<^verbatim>\<open>tuser\<close> read byte-wise.
\<close>

definition stream_caps :: bus_caps where
  "stream_caps = \<lparr>has_tdata = True, has_tkeep = True, has_tready = True, has_tlast = True,
     has_tstrb = True, has_tid = False, has_tdest = False, has_tuser = False\<rparr>"

definition stream_bus :: signals where
  "stream_bus = \<lparr>tvalid = ''0'', tdata = replicate 32 CHR ''x'', tkeep = ''xxxx'', tready = ''1'',
     tlast = ''x'', tstrb = ''xxxx'', tid = [], tdest = [], tuser = []\<rparr>"

definition master4 :: "bool \<Rightarrow> master" where
  "master4 lsbf = \<lparr>m_n_bytes = 4, m_lsb_first = lsbf\<rparr>"

definition monitor4 :: "bool \<Rightarrow> monitor" where
  "monitor4 lsbf = \<lparr>n_bytes = 4, lsb_first = lsbf, tuser_bytewise = False, user_bits = 0\<rparr>"

definition word4 :: "string \<Rightarrow> string \<Rightarrow> string \<Rightarrow> string \<Rightarrow> signals" where
  "word4 d k t l = stream_bus\<lparr>tvalid := ''1'', tlast := l, tdata := d, tkeep := k, tstrb := t\<rparr>"

definition data_packet :: "byte list \<Rightarrow> packet" where
  "data_packet bs = \<lparr>pkt_data = Some bs, pkt_user = None, pkt_tid = None, pkt_tdest = None\<rparr>"

definition mux_caps :: bus_caps where
  "mux_caps = stream_caps\<lparr>has_tid := True\<rparr>"

definition user_caps :: bus_caps where
  "user_caps = stream_caps\<lparr>has_tuser := True\<rparr>"


definition reset_cycle :: cycle where
  "reset_cycle = \<lparr>in_reset = True, sigs = stream_bus\<rparr>"

text \<open>The receiver is ready: \<^verbatim>\<open>tready\<close>, where the bus has it, reads as set.\<close>

definition receiver_ready :: "bus_caps \<Rightarrow> signals \<Rightarrow> bool" where
  "receiver_ready caps bus =
     (if has_tready caps
      then (case handle_int (tready bus) of Inl e \<Rightarrow> False | Inr r \<Rightarrow> r \<noteq> 0)
      else True)"

text \<open>
  A bus that carries one stream of data: \<^verbatim>\<open>tdata\<close>, \<^verbatim>\<open>tkeep\<close>, \<^verbatim>\<open>tlast\<close> and
  \<^verbatim>\<open>tready\<close>, and none of \<^verbatim>\<open>tid\<close>, \<^verbatim>\<open>tdest\<close>, \<^verbatim>\<open>tuser\<close>, which \<^verbatim>\<open>_send_bytes\<close> never
  drives. On it \<^verbatim>\<open>packet_buf\<close> is empty or holds the chunks of the one key.
\<close>

definition data_stream :: "bus_caps \<Rightarrow> bool" where
  "data_stream caps =
     (has_tdata caps \<and> has_tkeep caps \<and> has_tlast caps \<and> has_tready caps \<and>
      \<not> has_tid caps \<and> \<not> has_tdest caps \<and> \<not> has_tuser caps)"

definition one_pending :: "byte list list \<Rightarrow> packet_buf" where
  "one_pending chs =
     (if chs = [] then [] else [((None, None), \<lparr>buf_data = Some chs, buf_user = None\<rparr>)])"

text \<open>
  The key of a packet handed on, and a cycle that transfers a word of a given key
  whose lanes and \<^verbatim>\<open>tlast\<close> can be read.
\<close>

definition pkt_key :: "packet \<Rightarrow> stream_id" where
  "pkt_key p = (pkt_tid p, pkt_tdest p)"

definition carries :: "monitor \<Rightarrow> bus_caps \<Rightarrow> stream_id \<Rightarrow> cycle \<Rightarrow> bool" where
  "carries cfg caps sid c =
     (transfers caps c \<and> is_ok (decode_lanes cfg caps (sigs c)) \<and>
      stream_id_of caps (sigs c) = Inr sid \<and> is_ok (last_flag caps (sigs c)))"

section \<open>Basic facts\<close>

lemma bind_Inr [simp]: "bind (Inr x) f = f x"
  by (simp add: bind_def)

lemma bind_Inl [simp]: "bind (Inl e) f = Inl e"
  by (simp add: bind_def)

lemma byte_type_chars:
  assumes "str_at (keep_binstr cfg caps s) b = Inr k"
    and "str_at (strb_binstr cfg caps s) b = Inr t"
    and "resolve_char k = Inr k'" and "resolve_char t = Inr t'"
  shows "byte_type cfg caps s b = Inr [k', t']"
  using assms by (simp add: byte_type_def)

lemma lane_step_01:
  "byte_type cfg caps s b = Inr ''01'' \<Longrightarrow> lane_step cfg caps s b acc = Inl AXIS_ProtocolError"
  by (simp add: lane_step_def)

lemma lane_step_readable:
  "lane_readable cfg caps s b \<Longrightarrow> lane_step cfg caps s b acc = Inl e \<Longrightarrow> e = AXIS_ProtocolError"
  by (cases "byte_type cfg caps s b"; cases "lane_data s b"; cases "lane_user cfg s b")
     (auto simp: lane_step_def lane_readable_def is_ok_def split: if_splits)

lemma lanes_loop_fails:
  "b \<in> set bs \<Longrightarrow> byte_type cfg caps s b = Inr ''01'' \<Longrightarrow>
     \<exists>e. lanes_loop cfg caps s bs acc = Inl e"
proof (induction bs arbitrary: acc)
  case Nil
  then show ?case by simp
next
  case (Cons a bs)
  show ?case
  proof (cases "lane_step cfg caps s a acc")
    case (Inl e)
    then show ?thesis by simp
  next
    case (Inr acc')
    with Cons.prems have "a \<noteq> b" by (auto simp: lane_step_01)
    with Cons.prems have "b \<in> set bs" by simp
    from Cons.IH [OF this Cons.prems(2)] Inr show ?thesis by simp
  qed
qed

lemma lanes_loop_readable:
  "\<forall>b \<in> set bs. lane_readable cfg caps s b \<Longrightarrow>
     lanes_loop cfg caps s bs acc = Inl e \<Longrightarrow> e = AXIS_ProtocolError"
proof (induction bs arbitrary: acc)
  case Nil
  then show ?case by simp
next
  case (Cons a bs)
  show ?case
  proof (cases "lane_step cfg caps s a acc")
    case (Inl e')
    with Cons.prems show ?thesis by (auto dest: lane_step_readable)
  next
    case (Inr acc')
    with Cons show ?thesis by simp
  qed
qed

text \<open>On a cycle that transfers a word the loop body reaches the lanes.\<close>

lemma monitor_cycle_transfer:
  "transfers caps c \<Longrightarrow> monitor_cycle cfg caps buf c =
     bind (decode_lanes cfg caps (sigs c)) (\<lambda>acc.
       bind (stream_id_of caps (sigs c)) (\<lambda>sid.
       bind (last_flag caps (sigs c)) (\<lambda>is_last.
       if is_last then recv_last cfg caps buf sid (sigs c) (fst acc) (snd acc)
       else Inr (recv_more cfg caps buf sid (fst acc) (snd acc), []))))"
  by (auto simp: transfers_def monitor_cycle_def split: sum.splits)

text \<open>
  The numbers the loop over the lanes collects for the payload are bytes, so that
  \<^verbatim>\<open>bytes(filtered_data)\<close> never raises and \<open>bytes_of\<close> loses nothing.
\<close>

lemma resolve_length: "resolve s = Inr r \<Longrightarrow> length r = length s"
  by (induction s arbitrary: r) (auto split: sum.splits)

lemma int2_acc_bound: "int2_acc a s = Inr v \<Longrightarrow> v < (a + 1) * 2 ^ length s"
proof (induction s arbitrary: a)
  case Nil
  then show ?case by simp
next
  case (Cons c s)
  from Cons.prems obtain d where d: "bin_digit c = Some d" and r: "int2_acc (2 * a + d) s = Inr v"
    by (auto split: option.splits)
  from d have "d \<le> 1" by (auto simp: bin_digit_def split: if_splits)
  then have "(2 * a + d + 1) * 2 ^ length s \<le> (a + 1) * 2 ^ length (c # s)"
    by (simp add: algebra_simps)
  with Cons.IH [OF r] show ?case by simp
qed

lemma lane_data_byte: "lane_data s b = Inr v \<Longrightarrow> v < 256"
proof -
  assume a: "lane_data s b = Inr v"
  then obtain r where r: "resolve (list_slice (tdata s) (b * 8) ((b + 1) * 8)) = Inr r"
    and v: "int2 r = Inr v"
    by (cases "resolve (list_slice (tdata s) (b * 8) ((b + 1) * 8))") (auto simp: lane_data_def)
  have "length r \<le> 8"
    using resolve_length [OF r] by (simp add: list_slice_def)
  then have "(2::nat) ^ length r \<le> 2 ^ 8" by (intro power_increasing) simp_all
  moreover from v have "v < 2 ^ length r"
    using int2_acc_bound [of 0 r v] by (simp add: int2_def split: if_splits)
  ultimately show "v < 256" by simp
qed

lemma lane_step_bytes:
  "lane_step cfg caps s b acc = Inr acc' \<Longrightarrow> \<forall>v \<in> set (fst acc). v < 256 \<Longrightarrow>
     \<forall>v \<in> set (fst acc'). v < 256"
  by (cases "byte_type cfg caps s b"; cases "lane_data s b"; cases "lane_user cfg s b")
     (auto simp: lane_step_def dest: lane_data_byte split: if_splits)

lemma lanes_loop_bytes:
  "lanes_loop cfg caps s bs acc = Inr acc' \<Longrightarrow> \<forall>v \<in> set (fst acc). v < 256 \<Longrightarrow>
     \<forall>v \<in> set (fst acc'). v < 256"
proof (induction bs arbitrary: acc)
  case Nil
  then show ?case by simp
next
  case (Cons b bs)
  from Cons.prems(1) obtain mid where
    st: "lane_step cfg caps s b acc = Inr mid" and rest: "lanes_loop cfg caps s bs mid = Inr acc'"
    by (auto split: sum.splits)
  from lane_step_bytes [OF st Cons.prems(2)] Cons.IH [OF rest] show ?case by blast
qed

lemma decode_lanes_bytes:
  "decode_lanes cfg caps s = Inr (fd, fu) \<Longrightarrow> \<forall>v \<in> set fd. v < 256"
  using lanes_loop_bytes [of cfg caps s "byte_range cfg" "([], [])" "(fd, fu)"]
  by (simp add: decode_lanes_def)

section \<open>Encoding a word and decoding it\<close>

lemma resolve_binary: "set s \<subseteq> {CHR ''0'', CHR ''1''} \<Longrightarrow> resolve s = Inr s"
  by (induction s) (auto simp: resolve_char_def)

lemma length_bin_digits [simp]: "length (bin_digits k n) = k"
  by (induction k arbitrary: n) simp_all

lemma set_bin_digits: "set (bin_digits k n) \<subseteq> {CHR ''0'', CHR ''1''}"
  by (induction k arbitrary: n) auto

lemma int2_acc_append:
  "int2_acc a (xs @ ys) = bind (int2_acc a xs) (\<lambda>a'. int2_acc a' ys)"
  by (induction xs arbitrary: a) (simp_all split: option.splits)

lemma int2_acc_bin_digits: "int2_acc a (bin_digits k n) = Inr (a * 2 ^ k + n mod 2 ^ k)"
proof (induction k arbitrary: n a)
  case 0
  then show ?case by simp
next
  case (Suc k)
  have "n mod (2 * 2 ^ k) = 2 * (n div 2 mod 2 ^ k) + n mod 2"
    by (rule mod_mult2_eq)
  moreover have "(if odd n then 1 else 0) = n mod 2"
    by presburger
  ultimately show ?case
    by (auto simp: int2_acc_append Suc.IH bin_digit_def algebra_simps)
qed

lemma int2_format08b: "int2 (format08b b) = Inr (unat b)"
proof -
  have "unat b < 2 ^ 8"
    using unsigned_less [of b] by simp
  then have "unat b mod 2 ^ 8 = unat b" by simp
  moreover have "format08b b \<noteq> []"
    by (simp add: format08b_def numeral_nat)
  ultimately show ?thesis
    by (simp add: int2_def format08b_def int2_acc_bin_digits del: bin_digits.simps)
qed

lemma length_format08b [simp]: "length (format08b b) = 8"
  by (simp add: format08b_def del: bin_digits.simps)

lemma resolve_format08b: "resolve (format08b b) = Inr (format08b b)"
  by (simp add: format08b_def resolve_binary set_bin_digits del: bin_digits.simps)

lemma length_concat_fixed:
  "\<forall>x \<in> set xs. length (f x) = k \<Longrightarrow> length (concat (map f xs)) = k * length xs"
  by (induction xs) simp_all

lemma take_drop_concat_fixed:
  "\<forall>x \<in> set xs. length (f x) = k \<Longrightarrow> i < length xs \<Longrightarrow>
     take k (drop (i * k) (concat (map f xs))) = f (xs ! i)"
proof (induction xs arbitrary: i)
  case Nil
  then show ?case by simp
next
  case (Cons x xs)
  show ?case
  proof (cases i)
    case 0
    with Cons.prems show ?thesis by simp
  next
    case (Suc j)
    with Cons.prems have "j < length xs" by simp
    with Cons have "take k (drop (j * k) (concat (map f xs))) = f (xs ! j)" by simp
    with Cons.prems Suc show ?thesis by simp
  qed
qed

lemma length_repeat_str [simp]: "length (repeat_str k s) = k * length s"
  by (induction k) (simp_all add: repeat_str_def)

lemma lane_list_slice_bytes:
  "i < length ys \<Longrightarrow> list_slice (concat (map format08b ys)) (i * 8) ((i + 1) * 8) = format08b (ys ! i)"
  using take_drop_concat_fixed [of ys format08b 8 i] by (simp add: list_slice_def)

lemma lane_value_bytes:
  "i < length ys \<Longrightarrow>
     bind (resolve (list_slice (concat (map format08b ys)) (i * 8) ((i + 1) * 8))) int2 = Inr (unat (ys ! i))"
  by (simp only: lane_list_slice_bytes resolve_format08b int2_format08b bind_Inr)

lemma length_padstr [simp]: "length (padstr pz) = 8"
  by (simp add: padstr_def)

lemma list_slice_append_right:
  "length xs \<le> i \<Longrightarrow> list_slice (xs @ ys) i j = list_slice ys (i - length xs) (j - length xs)"
  by (simp add: list_slice_def)

lemma list_slice_append_left:
  "j \<le> length xs \<Longrightarrow> list_slice (xs @ ys) i j = list_slice xs i j"
  by (simp add: list_slice_def)

lemma length_chunk:
  "off \<le> length S \<Longrightarrow> length (list_slice S off (off + n)) = n - padbytes n (length S) off"
  by (auto simp: list_slice_def padbytes_def)

lemma padbytes_le: "off < length S \<Longrightarrow> padbytes n (length S) off \<le> n"
  by (auto simp: padbytes_def)

lemma word_binstr_eq:
  "word_binstr m pz S off =
     (if m_lsb_first m
      then repeat_str (padbytes (m_n_bytes m) (length S) off) (padstr pz) @
           concat (map format08b (rev (list_slice S off (off + m_n_bytes m))))
      else concat (map format08b (list_slice S off (off + m_n_bytes m))) @
           repeat_str (padbytes (m_n_bytes m) (length S) off) (padstr pz))"
  by (simp add: word_binstr_def Let_def repeat_str_def)

lemma word_keepstr_eq:
  "word_keepstr m S off =
     (if m_lsb_first m
      then replicate (padbytes (m_n_bytes m) (length S) off) CHR ''0'' @
           replicate (m_n_bytes m - padbytes (m_n_bytes m) (length S) off) CHR ''1''
      else replicate (m_n_bytes m - padbytes (m_n_bytes m) (length S) off) CHR ''1'' @
           replicate (padbytes (m_n_bytes m) (length S) off) CHR ''0'')"
  by (simp add: word_keepstr_def Let_def)

lemma length_word_keepstr:
  "off < length S \<Longrightarrow> length (word_keepstr m S off) = m_n_bytes m"
  using padbytes_le [of off S "m_n_bytes m"] by (simp add: word_keepstr_eq)

lemma lane_step_null:
  assumes "keep_binstr cfg caps s = K" and "strb_binstr cfg caps s = K"
    and "b < length K" and "K ! b = CHR ''0''"
  shows "byte_type cfg caps s b = Inr ''00''" and "lane_step cfg caps s b acc = Inr acc"
proof -
  show bt: "byte_type cfg caps s b = Inr ''00''"
    using assms by (simp add: byte_type_def str_at_def resolve_char_def)
  show "lane_step cfg caps s b acc = Inr acc"
    by (simp add: lane_step_def bt)
qed

lemma lane_step_data:
  assumes "keep_binstr cfg caps s = K" and "strb_binstr cfg caps s = K"
    and "b < length K" and "K ! b = CHR ''1''"
    and "has_tdata caps" and "\<not> (has_tuser caps \<and> tuser_bytewise cfg)"
    and "lane_data s b = Inr v"
  shows "byte_type cfg caps s b = Inr ''11''"
    and "lane_step cfg caps s b (fd, fu) = Inr (fd @ [v], fu)"
proof -
  show bt: "byte_type cfg caps s b = Inr ''11''"
    using assms by (simp add: byte_type_def str_at_def resolve_char_def)
  show "lane_step cfg caps s b (fd, fu) = Inr (fd @ [v], fu)"
    using assms(5-7) by (auto simp: lane_step_def bt)
qed

lemma lanes_loop_appends:
  assumes "\<forall>b \<in> set bs. \<forall>fd fu. lane_step cfg caps s b (fd, fu) = Inr (fd @ f b, fu)"
  shows "lanes_loop cfg caps s bs (fd, fu) = Inr (fd @ concat (map f bs), fu)"
  using assms by (induction bs arbitrary: fd) simp_all

lemma concat_after_pad:
  "concat (map (\<lambda>b. if b < p then [] else [g (b - p)]) [0 ..< p + c]) = map g [0 ..< c]"
proof (induction c)
  case 0
  then show ?case by simp
next
  case (Suc c)
  then show ?case by simp
qed

lemma concat_before_pad:
  "concat (map (\<lambda>b. if b < c then [g b] else []) [0 ..< c + p]) = map g [0 ..< c]"
proof (induction p)
  case 0
  have "map (\<lambda>b. if b < c then [g b] else []) [0 ..< c] = map (\<lambda>b. [g b]) [0 ..< c]"
    by simp
  then show ?case by (simp add: concat_map_singleton del: map_eq_conv)
next
  case (Suc p)
  then show ?case by simp
qed

lemma concat_map_rev_short:
  "\<forall>x \<in> set xs. length (f x) \<le> 1 \<Longrightarrow> concat (map f (rev xs)) = rev (concat (map f xs))"
proof (induction xs)
  case Nil
  then show ?case by simp
next
  case (Cons x xs)
  then have "length (f x) \<le> 1" by simp
  then have "rev (f x) = f x" by (cases "f x") simp_all
  with Cons show ?case by simp
qed

lemma map_nth_fun: "map (\<lambda>i. g (xs ! i)) [0 ..< length xs] = map g xs"
proof -
  have "map (\<lambda>i. g (xs ! i)) [0 ..< length xs] = map g (map ((!) xs) [0 ..< length xs])"
    by simp
  then show ?thesis by (simp only: map_nth)
qed

lemma drive_word_fields:
  assumes "drive_word m caps pz S off bus = Inr w"
  shows "has_tdata caps"
    and "tdata w = word_binstr m pz S off"
    and "has_tkeep caps \<Longrightarrow> tkeep w = word_keepstr m S off"
    and "has_tstrb caps \<Longrightarrow> tstrb w = word_keepstr m S off"
    and "tvalid w = ''1''"
    and "has_tlast caps \<Longrightarrow> tlast w = (if last_word (m_n_bytes m) (length S) off then ''1'' else ''0'')"
    and "tready w = tready bus"
  using assms by (auto simp: drive_word_def Let_def split: if_splits)

lemma driven_qualifiers:
  assumes "drive_word m caps pz S off bus = Inr w" and "has_tkeep caps"
  shows "keep_binstr cfg caps w = word_keepstr m S off"
    and "strb_binstr cfg caps w = word_keepstr m S off"
  using drive_word_fields(3,4) [OF assms(1)] assms(2)
  by (auto simp: keep_binstr_def strb_binstr_def)

lemma lane_data_lsb:
  assumes "tdata w = repeat_str p (padstr pz) @ concat (map format08b ys)"
    and "p \<le> b" and "b - p < length ys"
  shows "lane_data w b = Inr (unat (ys ! (b - p)))"
proof -
  have len: "length (repeat_str p (padstr pz)) = p * 8" by simp
  have le: "length (repeat_str p (padstr pz)) \<le> b * 8"
    using assms(2) by simp
  have i: "b * 8 - p * 8 = (b - p) * 8" by (simp add: diff_mult_distrib)
  have j: "(b + 1) * 8 - p * 8 = (b - p + 1) * 8"
    using assms(2) by (simp add: diff_mult_distrib algebra_simps)
  have "list_slice (tdata w) (b * 8) ((b + 1) * 8) =
          list_slice (concat (map format08b ys)) ((b - p) * 8) ((b - p + 1) * 8)"
    unfolding assms(1) list_slice_append_right [OF le] len i j ..
  then show ?thesis
    unfolding lane_data_def using lane_value_bytes [OF assms(3)] by simp
qed

lemma lane_data_msb:
  assumes "tdata w = concat (map format08b ys) @ pad" and "b < length ys"
  shows "lane_data w b = Inr (unat (ys ! b))"
proof -
  have "length (concat (map format08b ys)) = 8 * length ys"
    by (rule length_concat_fixed) simp
  with assms(2) have "(b + 1) * 8 \<le> length (concat (map format08b ys))" by simp
  then have "list_slice (tdata w) (b * 8) ((b + 1) * 8) =
          list_slice (concat (map format08b ys)) (b * 8) ((b + 1) * 8)"
    unfolding assms(1) by (rule list_slice_append_left)
  then show ?thesis
    unfolding lane_data_def using lane_value_bytes [OF assms(2)] by simp
qed

lemma decode_driven_word:
  assumes dw: "drive_word m caps pz S off bus = Inr w"
    and keep: "has_tkeep caps" and off: "off < length S"
    and n: "n_bytes cfg = m_n_bytes m" and l: "lsb_first cfg = m_lsb_first m"
    and nu: "\<not> (has_tuser caps \<and> tuser_bytewise cfg)"
  shows "decode_lanes cfg caps w = Inr (map unat (list_slice S off (off + m_n_bytes m)), [])"
proof -
  define nb where "nb = m_n_bytes m"
  define p where "p = padbytes nb (length S) off"
  define chunk where "chunk = list_slice S off (off + nb)"
  define K where "K = word_keepstr m S off"
  have pn: "p \<le> nb"
    unfolding p_def using off by (rule padbytes_le)
  have c: "length chunk = nb - p"
    unfolding chunk_def p_def using off by (simp add: length_chunk)
  have lenK: "length K = nb"
    unfolding K_def nb_def using off by (rule length_word_keepstr)
  have qk: "keep_binstr cfg caps w = K" and qs: "strb_binstr cfg caps w = K"
    unfolding K_def using driven_qualifiers [OF dw keep] by simp_all
  have data: "has_tdata caps"
    using dw by (rule drive_word_fields(1))
  have td: "tdata w = word_binstr m pz S off"
    using dw by (rule drive_word_fields(2))
  show ?thesis
  proof (cases "m_lsb_first m")
    case True
    define f where "f b = (if b < p then [] else [unat (rev chunk ! (b - p))])" for b
    have Keq: "K = replicate p CHR ''0'' @ replicate (nb - p) CHR ''1''"
      unfolding K_def p_def nb_def using True by (simp add: word_keepstr_eq)
    have tdeq: "tdata w = repeat_str p (padstr pz) @ concat (map format08b (rev chunk))"
      unfolding td p_def chunk_def nb_def using True by (simp add: word_binstr_eq)
    have lanes: "\<forall>b \<in> set (rev [0 ..< nb]). \<forall>fd fu.
        lane_step cfg caps w b (fd, fu) = Inr (fd @ f b, fu)"
    proof (intro ballI allI)
      fix b fd fu
      assume "b \<in> set (rev [0 ..< nb])"
      then have bn: "b < nb" by simp
      then have bK: "b < length K" by (simp add: lenK)
      show "lane_step cfg caps w b (fd, fu) = Inr (fd @ f b, fu)"
      proof (cases "b < p")
        case True
        then have "K ! b = CHR ''0''" by (simp add: Keq nth_append)
        from lane_step_null(2) [OF qk qs bK this] True show ?thesis by (simp add: f_def)
      next
        case False
        with bn have "K ! b = CHR ''1''" by (simp add: Keq nth_append)
        moreover have "lane_data w b = Inr (unat (rev chunk ! (b - p)))"
          using tdeq by (rule lane_data_lsb) (use False bn c in simp_all)
        ultimately show ?thesis
          using lane_step_data(2) [OF qk qs bK _ data nu] False by (simp add: f_def)
      qed
    qed
    have short: "\<forall>b \<in> set [0 ..< nb]. length (f b) \<le> 1"
      by (simp add: f_def)
    have "concat (map f [0 ..< p + (nb - p)]) = map (\<lambda>i. unat (rev chunk ! i)) [0 ..< nb - p]"
      unfolding f_def by (rule concat_after_pad)
    also have "\<dots> = map unat (rev chunk)"
      using map_nth_fun [of unat "rev chunk"] by (simp add: c)
    finally have "concat (map f [0 ..< nb]) = map unat (rev chunk)"
      using pn by simp
    then have "concat (map f (rev [0 ..< nb])) = map unat chunk"
      by (simp add: concat_map_rev_short [OF short] rev_map)
    with lanes_loop_appends [OF lanes, of "[]" "[]"] show ?thesis
      using True by (simp add: decode_lanes_def byte_range_def n l nb_def chunk_def)
  next
    case False
    define f where "f b = (if b < nb - p then [unat (chunk ! b)] else [])" for b
    have Keq: "K = replicate (nb - p) CHR ''1'' @ replicate p CHR ''0''"
      unfolding K_def p_def nb_def using False by (simp add: word_keepstr_eq)
    have tdeq: "tdata w = concat (map format08b chunk) @ repeat_str p (padstr pz)"
      unfolding td p_def chunk_def nb_def using False by (simp add: word_binstr_eq)
    have lanes: "\<forall>b \<in> set [0 ..< nb]. \<forall>fd fu.
        lane_step cfg caps w b (fd, fu) = Inr (fd @ f b, fu)"
    proof (intro ballI allI)
      fix b fd fu
      assume "b \<in> set [0 ..< nb]"
      then have bn: "b < nb" by simp
      then have bK: "b < length K" by (simp add: lenK)
      show "lane_step cfg caps w b (fd, fu) = Inr (fd @ f b, fu)"
      proof (cases "b < nb - p")
        case True
        then have "K ! b = CHR ''1''" by (simp add: Keq nth_append)
        moreover have "lane_data w b = Inr (unat (chunk ! b))"
          using tdeq by (rule lane_data_msb) (use True c in simp)
        ultimately show ?thesis
          using lane_step_data(2) [OF qk qs bK _ data nu] True by (simp add: f_def)
      next
        case False
        with bn have "K ! b = CHR ''0''" by (simp add: Keq nth_append)
        from lane_step_null(2) [OF qk qs bK this] False show ?thesis by (simp add: f_def)
      qed
    qed
    have "concat (map f [0 ..< (nb - p) + p]) = map (\<lambda>i. unat (chunk ! i)) [0 ..< nb - p]"
      unfolding f_def by (rule concat_before_pad)
    also have "\<dots> = map unat chunk"
      using map_nth_fun [of unat chunk] by (simp add: c)
    finally have "concat (map f [0 ..< nb]) = map unat chunk"
      using pn by simp
    with lanes_loop_appends [OF lanes, of "[]" "[]"] show ?thesis
      using False by (simp add: decode_lanes_def byte_range_def n l nb_def chunk_def)
  qed
qed


text \<open>The wait of the driver: it ends at once when the receiver is ready, and never
  while \<^verbatim>\<open>tready\<close> reads 0.\<close>

lemma wait_ready_ready: "receiver_ready caps bus \<Longrightarrow> wait_ready caps bus = Some (Inr ())"
  by (subst wait_ready.simps) (auto simp: receiver_ready_def split: sum.splits if_splits)

lemma wait_ready_returns:
  assumes "wait_ready caps bus = Some y"
  shows "\<not> (has_tready caps \<and> handle_int (tready bus) = Inr 0)"
  using assms
proof (induction rule: wait_ready.raw_induct [rotated 1, consumes 1])
  case (1 wait_ready caps bus y)
  then show ?case by (auto split: if_splits sum.splits)
qed

lemma wait_ready_waits:
  "has_tready caps \<Longrightarrow> handle_int (tready bus) = Inr 0 \<Longrightarrow> wait_ready caps bus = None"
  using wait_ready_returns [of caps bus] by (cases "wait_ready caps bus") auto

lemma send_loop_words:
  assumes "has_tdata caps" and "receiver_ready caps bus"
  shows "\<exists>ws busf. send_loop m caps pz S bus offs = Some (Inr (ws, busf)) \<and>
           list_all2 (\<lambda>off w. \<exists>b'. drive_word m caps pz S off b' = Inr w \<and> tready b' = tready bus) offs ws"
  using assms(2)
proof (induction offs arbitrary: bus)
  case Nil
  then show ?case by simp
next
  case (Cons off offs)
  obtain bus' where d: "drive_word m caps pz S off bus = Inr bus'"
    using assms(1) by (simp add: drive_word_def Let_def)
  then have r: "tready bus' = tready bus" by (rule drive_word_fields(7))
  with Cons.prems have rdy: "receiver_ready caps bus'" by (simp add: receiver_ready_def)
  then have w: "wait_ready caps bus' = Some (Inr ())" by (rule wait_ready_ready)
  from Cons.IH [OF rdy] obtain ws busf where
    l: "send_loop m caps pz S bus' offs = Some (Inr (ws, busf))" and
    a: "list_all2 (\<lambda>off w. \<exists>b'. drive_word m caps pz S off b' = Inr w \<and> tready b' = tready bus') offs ws"
    by blast
  from d w l a r show ?case by auto
qed



section \<open>Reassembling the words of one packet\<close>

lemma bytes_of_unat: "bytes_of (map unat xs) = xs"
  by (simp add: bytes_of_def map_idI)

lemma handle_int_bits: "handle_int ''1'' = Inr 1" "handle_int ''0'' = Inr 0"
  by (simp_all add: handle_int_def resolve_char_def int2_def bin_digit_def)

lemma recv_more_one_pending:
  assumes "data_stream caps"
  shows "recv_more cfg caps (one_pending chs) (None, None) (map unat chunk) [] =
           one_pending (chs @ [chunk])"
  using assms
  by (simp add: recv_more_def one_pending_def data_stream_def fresh_pending_def
      pending_append_def bytes_of_unat)

lemma recv_last_one_pending:
  assumes "data_stream caps" and "chs \<noteq> []"
  shows "recv_last cfg caps (one_pending chs) (None, None) w (map unat chunk) [] =
           Inr ([], [data_packet (concat chs @ chunk)])"
  using assms
  by (simp add: recv_last_def recv_last_try_def buffered_def one_pending_def data_stream_def
      data_packet_def bytes_of_unat)

text \<open>
  A last word on a bus with \<^verbatim>\<open>tdata\<close>: with chunks buffered for its key the packet
  is handed on and the entry deleted; with nothing buffered, whenever the cycle
  ends without an exception, nothing is handed on and \<^verbatim>\<open>packet_buf\<close> is as it was.
\<close>

lemma recv_last_buffered:
  assumes "has_tdata caps" and "\<not> has_tuser caps"
    and "map_of buf sid = Some p" and "buf_data p = Some chs"
  shows "recv_last cfg caps buf sid s fd fu =
           Inr (AList.delete sid buf,
                [\<lparr>pkt_data = Some (concat chs @ bytes_of fd), pkt_user = None,
                  pkt_tid = fst sid, pkt_tdest = snd sid\<rparr>])"
  using assms by (simp add: recv_last_def recv_last_try_def buffered_def)

lemma recv_last_unbuffered:
  assumes "has_tdata caps" and "map_of buf sid = None"
    and "recv_last cfg caps buf sid s fd fu = Inr (buf', out)"
  shows "buf' = buf \<and> out = []"
  using assms
  by (auto simp: recv_last_def recv_last_try_def buffered_def split: sum.splits if_splits)

lemma monitor_cycle_driven:
  assumes caps: "data_stream caps"
    and dw: "drive_word m caps pz S off b' = Inr w" and rdy: "tready b' = ''1''"
    and off: "off < length S"
    and cn: "n_bytes cfg = m_n_bytes m" and cl: "lsb_first cfg = m_lsb_first m"
  shows "monitor_cycle cfg caps buf (on_bus w) =
     (if last_word (m_n_bytes m) (length S) off
      then recv_last cfg caps buf (None, None) w
             (map unat (list_slice S off (off + m_n_bytes m))) []
      else Inr (recv_more cfg caps buf (None, None)
             (map unat (list_slice S off (off + m_n_bytes m))) [], []))"
proof -
  note f = drive_word_fields [OF dw]
  have tr: "transfers caps (on_bus w)"
    using caps f(5) f(7) rdy by (simp add: transfers_def on_bus_def data_stream_def handle_int_bits)
  have dec: "decode_lanes cfg caps w = Inr (map unat (list_slice S off (off + m_n_bytes m)), [])"
    using caps by (intro decode_driven_word [OF dw _ off cn cl]) (simp_all add: data_stream_def)
  have sid: "stream_id_of caps w = Inr (None, None)"
    using caps by (simp add: stream_id_of_def data_stream_def)
  have lst: "tlast w = (if last_word (m_n_bytes m) (length S) off then ''1'' else ''0'')"
    using caps f(6) by (simp add: data_stream_def)
  have hl: "has_tlast caps" using caps by (simp add: data_stream_def)
  have sg: "sigs (on_bus w) = w" by (simp add: on_bus_def)
  show ?thesis
    by (simp add: monitor_cycle_transfer [OF tr] sg dec sid lst hl handle_int_bits last_flag_def)
qed

lemma run_nonlast:
  assumes caps: "data_stream caps" and rdy: "tready bus = ''1''"
    and cn: "n_bytes cfg = m_n_bytes m" and cl: "lsb_first cfg = m_lsb_first m"
    and all: "list_all2 (\<lambda>off w. \<exists>b'. drive_word m caps pz S off b' = Inr w \<and> tready b' = tready bus)
                offs ws"
    and nl: "\<forall>off \<in> set offs. off + m_n_bytes m < length S"
  shows "monitor_recv cfg caps (one_pending chs) (map on_bus ws) =
           ([], Inr (one_pending (chs @ map (\<lambda>off. list_slice S off (off + m_n_bytes m)) offs)))"
  using all nl
proof (induction arbitrary: chs rule: list_all2_induct)
  case Nil
  then show ?case by simp
next
  case (Cons off offs w ws)
  from Cons.hyps(1) rdy obtain b' where
    dw: "drive_word m caps pz S off b' = Inr w" and r: "tready b' = ''1''" by auto
  from Cons.prems have lt: "off + m_n_bytes m < length S" by simp
  then have off: "off < length S" by simp
  have cyc: "monitor_cycle cfg caps (one_pending chs) (on_bus w) =
      Inr (one_pending (chs @ [list_slice S off (off + m_n_bytes m)]), [])"
    using lt
    by (simp add: monitor_cycle_driven [OF caps dw r off cn cl] last_word_def
        recv_more_one_pending [OF caps])
  from Cons.prems have "\<forall>off \<in> set offs. off + m_n_bytes m < length S" by simp
  from Cons.IH [OF this, of "chs @ [list_slice S off (off + m_n_bytes m)]"] cyc
  show ?case by simp
qed

lemma monitor_recv_append:
  "monitor_recv cfg caps buf cs = (ps, Inr buf') \<Longrightarrow>
     monitor_recv cfg caps buf (cs @ cs') =
       (case monitor_recv cfg caps buf' cs' of (qs, r) \<Rightarrow> (ps @ qs, r))"
proof (induction cs arbitrary: buf ps)
  case Nil
  then show ?case by (simp split: prod.splits)
next
  case (Cons c cs)
  show ?case
  proof (cases "monitor_cycle cfg caps buf c")
    case (Inl e)
    with Cons.prems show ?thesis by simp
  next
    case (Inr r)
    obtain b1 out where r: "r = (b1, out)" by (cases r)
    obtain qs r' where rest: "monitor_recv cfg caps b1 cs = (qs, r')"
      by (cases "monitor_recv cfg caps b1 cs")
    from Cons.prems Inr r rest have "r' = Inr buf'" and ps: "ps = out @ qs" by auto
    with rest Cons.IH have "monitor_recv cfg caps b1 (cs @ cs') =
       (case monitor_recv cfg caps buf' cs' of (qs', r) \<Rightarrow> (qs @ qs', r))" by blast
    with Inr r ps show ?thesis by (simp split: prod.splits)
  qed
qed

lemma ceil_div_bounds:
  assumes "0 < (n::nat)" and "0 < (len::nat)"
  shows "((len + n - 1) div n - 1) * n < len" and "len \<le> (len + n - 1) div n * n"
    and "0 < (len + n - 1) div n"
proof -
  define q where "q = (len + n - 1) div n"
  define t where "t = (len + n - 1) mod n"
  have eq: "len + n - 1 = q * n + t" by (simp add: q_def t_def)
  have t: "t < n" using assms(1) by (simp add: t_def)
  have q: "0 < q"
  proof (rule ccontr)
    assume "\<not> 0 < q"
    with eq t assms show False by simp
  qed
  have "q * n = (q - 1) * n + n" using q by (simp add: diff_mult_distrib)
  with eq t assms show "((len + n - 1) div n - 1) * n < len"
    unfolding q_def [symmetric] by simp
  from eq t assms show "len \<le> (len + n - 1) div n * n"
    unfolding q_def [symmetric] by simp
  from q show "0 < (len + n - 1) div n" by (simp add: q_def)
qed

lemma concat_chunks:
  "concat (map (\<lambda>off. list_slice S off (off + n)) (map (\<lambda>k. k * n) [0 ..< q])) = take (q * n) S"
proof (induction q)
  case 0
  then show ?case by simp
next
  case (Suc q)
  have "take (q * n + n) S = take (q * n) S @ take n (drop (q * n) S)"
    by (simp add: take_add)
  with Suc show ?case by (simp add: list_slice_def add.commute)
qed

text \<open>
  A byte sequence longer than one word, sent on a bus that carries one stream of
  data with the receiver ready, is sent as two or more words and handed on by the
  monitor as one packet with exactly that payload, for both lane orders and both
  kinds of padding.
\<close>

theorem roundtrip_multiword:
  assumes caps: "data_stream caps" and rdy: "tready bus = ''1''"
    and cn: "n_bytes cfg = m_n_bytes m" and cl: "lsb_first cfg = m_lsb_first m"
    and n: "0 < m_n_bytes m" and long: "m_n_bytes m < length S"
  shows "\<exists>ws busf. send_bytes m caps pz S bus = Some (Inr (ws, busf)) \<and>
           monitor_recv cfg caps [] (map on_bus ws) = ([data_packet S], Inr [])"
proof -
  define nb where "nb = m_n_bytes m"
  define q where "q = (length S + nb - 1) div nb"
  define chunk where "chunk off = list_slice S off (off + nb)" for off
  define offs1 where "offs1 = map (\<lambda>k. k * nb) [0 ..< q - 1]"
  define offl where "offl = (q - 1) * nb"
  have nb: "0 < nb" and len: "nb < length S" "0 < length S"
    using n long by (auto simp: nb_def)
  have lo: "(q - 1) * nb < length S" and hi: "length S \<le> q * nb" and q0: "0 < q"
    unfolding q_def using ceil_div_bounds [OF nb len(2)] by simp_all
  have q1: "1 < q"
  proof (rule ccontr)
    assume "\<not> 1 < q"
    with q0 have "q = 1" by simp
    with hi len show False by simp
  qed
  then have qs: "q = Suc (q - 1)" by simp
  have offs: "range_step (length S) nb = offs1 @ [offl]"
    unfolding range_step_def q_def [symmetric] offs1_def offl_def
    by (subst qs) (simp only: upt_Suc_append le0 map_append list.map)
  have offs1_ne: "offs1 \<noteq> []"
    using q1 by (simp add: offs1_def)
  have nl: "\<forall>off \<in> set offs1. off + nb < length S"
  proof
    fix off
    assume "off \<in> set offs1"
    then obtain k where k: "k < q - 1" and off: "off = k * nb"
      by (auto simp: offs1_def)
    from k have "Suc k * nb \<le> (q - 1) * nb"
      by (intro mult_le_mono1) simp
    with lo off show "off + nb < length S" by simp
  qed
  have data: "has_tdata caps" using caps by (simp add: data_stream_def)
  have rr: "receiver_ready caps bus"
    using caps rdy by (simp add: receiver_ready_def data_stream_def handle_int_bits)
  from send_loop_words [OF data rr, of m pz S "range_step (length S) nb"]
  obtain ws busf where
    loop: "send_loop m caps pz S bus (range_step (length S) nb) = Some (Inr (ws, busf))" and
    all: "list_all2 (\<lambda>off w. \<exists>b'. drive_word m caps pz S off b' = Inr w \<and> tready b' = tready bus)
            (offs1 @ [offl]) ws"
    unfolding offs by blast
  from all obtain ws1 wl where
    ws: "ws = ws1 @ [wl]" and
    all1: "list_all2 (\<lambda>off w. \<exists>b'. drive_word m caps pz S off b' = Inr w \<and> tready b' = tready bus)
             offs1 ws1" and
    lastw: "\<exists>b'. drive_word m caps pz S offl b' = Inr wl \<and> tready b' = tready bus"
    by (auto simp: list_all2_append1 list_all2_Cons1)
  from lastw rdy obtain b' where
    dw: "drive_word m caps pz S offl b' = Inr wl" and r: "tready b' = ''1''" by auto
  have sent: "send_bytes m caps pz S bus = Some (Inr (ws, idle_outputs m caps busf))"
    using n loop by (simp add: send_bytes_def nb_def)
  have first: "monitor_recv cfg caps [] (map on_bus ws1) = ([], Inr (one_pending (map chunk offs1)))"
    using run_nonlast [OF caps rdy cn cl all1 [unfolded nb_def] nl [unfolded nb_def], of "[]"]
    by (simp add: one_pending_def chunk_def nb_def)
  have is_last: "last_word nb (length S) offl"
    using hi q0 by (simp add: last_word_def offl_def diff_mult_distrib)
  have cyc: "monitor_cycle cfg caps (one_pending (map chunk offs1)) (on_bus wl) =
      Inr ([], [data_packet (concat (map chunk offs1) @ chunk offl)])"
    using is_last offs1_ne
    by (simp add: monitor_cycle_driven [OF caps dw r lo [folded offl_def] cn cl]
        nb_def [symmetric] chunk_def [symmetric] recv_last_one_pending [OF caps])
  have "concat (map chunk offs1) @ chunk offl = concat (map chunk (map (\<lambda>k. k * nb) [0 ..< q]))"
    by (subst qs) (simp add: offs1_def offl_def)
  also have "\<dots> = take (q * nb) S"
    unfolding chunk_def by (rule concat_chunks)
  also have "\<dots> = S" using hi by simp
  finally have payload: "concat (map chunk offs1) @ chunk offl = S" .
  have "monitor_recv cfg caps [] (map on_bus ws) = ([data_packet S], Inr [])"
    using monitor_recv_append [OF first, of "[on_bus wl]"] cyc payload
    by (simp add: ws)
  with sent show ?thesis by blast
qed

lemma recv_last_nothing_pending:
  assumes "data_stream caps"
  shows "recv_last cfg caps [] (None, None) w fd [] = Inr ([], [])"
  using assms
  by (simp add: recv_last_def recv_last_try_def recv_last_except_def buffered_def data_stream_def)

text \<open>
  A byte sequence that fits one word is sent as a single word with \<^verbatim>\<open>tlast\<close> set.
  The monitor decodes its bytes, finds nothing buffered for the key, and hands on
  no packet.
\<close>

theorem single_word_packet_lost:
  assumes caps: "data_stream caps" and rdy: "tready bus = ''1''"
    and cn: "n_bytes cfg = m_n_bytes m" and cl: "lsb_first cfg = m_lsb_first m"
    and pos: "0 < length S" and short: "length S \<le> m_n_bytes m"
  shows "\<exists>w busf. send_bytes m caps pz S bus = Some (Inr ([w], busf)) \<and>
           tlast w = ''1'' \<and>
           decode_lanes cfg caps w = Inr (map unat S, []) \<and>
           monitor_recv cfg caps [] (map on_bus [w]) = ([], Inr [])"
proof -
  define nb where "nb = m_n_bytes m"
  define len where "len = length S"
  have len: "0 < len" "len \<le> nb" using pos short by (simp_all add: len_def nb_def)
  then have nb: "0 < nb" by simp
  have "(len + nb - 1) div nb = 1"
  proof (rule div_nat_eqI)
    show "nb * 1 \<le> len + nb - 1" using len by simp
    show "len + nb - 1 < nb * Suc 1" using len by simp
  qed
  then have offs: "range_step (length S) nb = [0]"
    by (simp add: range_step_def len_def)
  have data: "has_tdata caps" using caps by (simp add: data_stream_def)
  have rr: "receiver_ready caps bus"
    using caps rdy by (simp add: receiver_ready_def data_stream_def handle_int_bits)
  from send_loop_words [OF data rr, of m pz S "[0]"]
  obtain w busf b' where
    loop: "send_loop m caps pz S bus [0] = Some (Inr ([w], busf))" and
    dw: "drive_word m caps pz S 0 b' = Inr w" and r: "tready b' = tready bus"
    by (auto simp: list_all2_Cons1)
  have sent: "send_bytes m caps pz S bus = Some (Inr ([w], idle_outputs m caps busf))"
    using nb loop offs by (simp add: send_bytes_def nb_def)
  have is_last: "last_word (m_n_bytes m) (length S) 0"
    using short by (simp add: last_word_def)
  have chunk: "list_slice S 0 (0 + m_n_bytes m) = S"
    using short by (simp add: list_slice_def)
  have tl: "tlast w = ''1''"
    using drive_word_fields(6) [OF dw] caps is_last by (simp add: data_stream_def)
  have dec: "decode_lanes cfg caps w = Inr (map unat S, [])"
    using decode_driven_word [OF dw _ pos cn cl] caps chunk by (simp add: data_stream_def)
  have "monitor_cycle cfg caps [] (on_bus w) = Inr ([], [])"
    using monitor_cycle_driven [OF caps dw _ pos cn cl, of "[]"] r rdy is_last
    by (simp add: recv_last_nothing_pending [OF caps])
  then have "monitor_recv cfg caps [] (map on_bus [w]) = ([], Inr [])" by simp
  with sent tl dec show ?thesis by blast
qed

text \<open>
  A receiver that is not ready: with \<^verbatim>\<open>tready\<close> unknown the driver raises after
  the first word is driven, and with \<^verbatim>\<open>tready\<close> held at 0 it does not return.
\<close>

lemma send_bytes_unknown_ready:
  "send_bytes (master4 True) stream_caps False [0x11] (stream_bus\<lparr>tready := ''x''\<rparr>)
     = Some (Inl ValueError)"
  by code_simp

lemma send_loop_not_ready:
  assumes "has_tdata caps" and "has_tready caps" and "handle_int (tready bus) = Inr 0"
  shows "send_loop m caps pz S bus (off # offs) = None"
proof -
  obtain bus' where d: "drive_word m caps pz S off bus = Inr bus'"
    using assms(1) by (simp add: drive_word_def Let_def)
  then have "tready bus' = tready bus" by (rule drive_word_fields(7))
  with assms have "wait_ready caps bus' = None" by (simp add: wait_ready_waits)
  with d show ?thesis by simp
qed

lemma send_bytes_not_ready:
  "send_bytes (master4 True) stream_caps False [0x11] (stream_bus\<lparr>tready := ''0''\<rparr>) = None"
proof -
  have r: "range_step (length [0x11 :: byte]) (m_n_bytes (master4 True)) = [0]" by code_simp
  have "send_loop (master4 True) stream_caps False [0x11] (stream_bus\<lparr>tready := ''0''\<rparr>) [0] = None"
    by (rule send_loop_not_ready) (simp_all add: stream_caps_def handle_int_bits)
  with r show ?thesis by (simp add: send_bytes_def master4_def)
qed

section \<open>Independence of the streams\<close>

lemma recv_last_cases:
  assumes "has_tdata caps" and "\<not> has_tuser caps"
  shows "recv_last cfg caps buf sid s fd fu =
     (case map_of buf sid of
        None \<Rightarrow> Inr (buf, [])
      | Some p \<Rightarrow>
          (case buf_data p of
             None \<Rightarrow> Inr (buf, [])
           | Some chs \<Rightarrow>
               Inr (AList.delete sid buf,
                    [\<lparr>pkt_data = Some (concat chs @ bytes_of fd), pkt_user = None,
                      pkt_tid = fst sid, pkt_tdest = snd sid\<rparr>])))"
  using assms
  by (simp add: recv_last_def recv_last_try_def recv_last_except_def buffered_def
      split: option.splits)

lemma recv_more_cases:
  assumes "has_tdata caps" and "\<not> has_tuser caps"
  shows "recv_more cfg caps buf sid fd fu =
     AList.update sid
       (case map_of buf sid of
          None \<Rightarrow> fresh_pending cfg caps fd fu
        | Some p \<Rightarrow>
            (case buf_data p of
               None \<Rightarrow> fresh_pending cfg caps fd fu
             | Some chs \<Rightarrow> p\<lparr>buf_data := Some (chs @ [bytes_of fd])\<rparr>)) buf"
  using assms
  by (simp add: recv_more_def pending_append_def split: option.splits)

lemma carries_cycle:
  assumes "carries cfg caps sid c"
  shows "\<exists>fd fu l. \<forall>buf. monitor_cycle cfg caps buf c =
     (if l then recv_last cfg caps buf sid (sigs c) fd fu
      else Inr (recv_more cfg caps buf sid fd fu, []))"
proof -
  from assms obtain acc l where
    tr: "transfers caps c" and d: "decode_lanes cfg caps (sigs c) = Inr acc"
    and k: "stream_id_of caps (sigs c) = Inr sid" and f: "last_flag caps (sigs c) = Inr l"
    by (auto simp: carries_def is_ok_def split: sum.splits)
  have "\<forall>buf. monitor_cycle cfg caps buf c =
     (if l then recv_last cfg caps buf sid (sigs c) (fst acc) (snd acc)
      else Inr (recv_more cfg caps buf sid (fst acc) (snd acc), []))"
    by (simp add: monitor_cycle_transfer [OF tr] d k f)
  then show ?thesis by blast
qed

lemma carries_unique: "carries cfg caps A c \<Longrightarrow> carries cfg caps K c \<Longrightarrow> A = K"
  by (simp add: carries_def)

lemma cycle_same_key:
  assumes d: "has_tdata caps" and u: "\<not> has_tuser caps"
    and c: "carries cfg caps A c" and eq: "map_of b1 A = map_of b2 A"
  shows "\<exists>b1' b2' out. monitor_cycle cfg caps b1 c = Inr (b1', out) \<and>
           monitor_cycle cfg caps b2 c = Inr (b2', out) \<and>
           map_of b1' A = map_of b2' A \<and> (\<forall>p \<in> set out. pkt_key p = A)"
proof -
  from carries_cycle [OF c] obtain fd fu l where cyc: "\<And>buf. monitor_cycle cfg caps buf c =
     (if l then recv_last cfg caps buf A (sigs c) fd fu
      else Inr (recv_more cfg caps buf A fd fu, []))"
    by blast
  show ?thesis
  proof (cases l)
    case True
    then show ?thesis
      using eq
      by (auto simp: cyc recv_last_cases [OF d u] delete_conv' pkt_key_def split: option.splits)
  next
    case False
    then show ?thesis
      using eq by (simp add: cyc recv_more_cases [OF d u] update_conv')
  qed
qed

lemma cycle_other_key:
  assumes d: "has_tdata caps" and u: "\<not> has_tuser caps"
    and c: "carries cfg caps K c" and ne: "K \<noteq> A"
  shows "\<exists>b' out. monitor_cycle cfg caps b c = Inr (b', out) \<and>
           map_of b' A = map_of b A \<and> (\<forall>p \<in> set out. pkt_key p = K)"
proof -
  from carries_cycle [OF c] obtain fd fu l where cyc: "\<And>buf. monitor_cycle cfg caps buf c =
     (if l then recv_last cfg caps buf K (sigs c) fd fu
      else Inr (recv_more cfg caps buf K fd fu, []))"
    by blast
  show ?thesis
  proof (cases l)
    case True
    then show ?thesis
      using ne
      by (auto simp: cyc recv_last_cases [OF d u] delete_conv' pkt_key_def split: option.splits)
  next
    case False
    then show ?thesis
      using ne by (simp add: cyc recv_more_cases [OF d u] update_conv')
  qed
qed

text \<open>
  On a bus with \<^verbatim>\<open>tdata\<close> and without \<^verbatim>\<open>tuser\<close>, over cycles that each transfer a
  readable word: the run ends without an exception, the packets it hands on for a
  key are those of the run over the words of that key alone, and so is what stays
  buffered for the key.
\<close>

theorem streams_independent:
  assumes d: "has_tdata caps" and u: "\<not> has_tuser caps"
    and all: "\<forall>c \<in> set cs. \<exists>K. carries cfg caps K c"
    and eq: "map_of b1 A = map_of b2 A"
  shows "\<exists>out b1' b2'. monitor_recv cfg caps b1 cs = (out, Inr b1') \<and>
           monitor_recv cfg caps b2 (filter (carries cfg caps A) cs) =
             (filter (\<lambda>p. pkt_key p = A) out, Inr b2') \<and>
           map_of b1' A = map_of b2' A \<and>
           (\<forall>p \<in> set out. \<exists>c \<in> set cs. carries cfg caps (pkt_key p) c)"
  using all eq
proof (induction cs arbitrary: b1 b2)
  case Nil
  then show ?case by simp
next
  case (Cons c cs)
  from Cons.prems(1) obtain K where K: "carries cfg caps K c" by auto
  from Cons.prems(1) have rest: "\<forall>c \<in> set cs. \<exists>K. carries cfg caps K c" by simp
  show ?case
  proof (cases "K = A")
    case True
    with K have cA: "carries cfg caps A c" by simp
    from cycle_same_key [OF d u cA Cons.prems(2)] obtain m1 m2 o1 where
      s1: "monitor_cycle cfg caps b1 c = Inr (m1, o1)" and
      s2: "monitor_cycle cfg caps b2 c = Inr (m2, o1)" and
      m: "map_of m1 A = map_of m2 A" and ok: "\<forall>p \<in> set o1. pkt_key p = A"
      by blast
    from Cons.IH [OF rest m] obtain out b1' b2' where
      r1: "monitor_recv cfg caps m1 cs = (out, Inr b1')" and
      r2: "monitor_recv cfg caps m2 (filter (carries cfg caps A) cs) =
             (filter (\<lambda>p. pkt_key p = A) out, Inr b2')" and
      e: "map_of b1' A = map_of b2' A" and
      src: "\<forall>p \<in> set out. \<exists>c \<in> set cs. carries cfg caps (pkt_key p) c"
      by blast
    have f: "filter (\<lambda>p. pkt_key p = A) o1 = o1"
      using ok by (simp add: filter_id_conv)
    have "\<forall>p \<in> set (o1 @ out). \<exists>c' \<in> set (c # cs). carries cfg caps (pkt_key p) c'"
      using ok cA src by auto
    with s1 s2 r1 r2 e cA f show ?thesis by simp
  next
    case False
    with K have nA: "\<not> carries cfg caps A c"
      using carries_unique by blast
    from cycle_other_key [OF d u K False, of b1] obtain m1 o1 where
      s1: "monitor_cycle cfg caps b1 c = Inr (m1, o1)" and
      m: "map_of m1 A = map_of b1 A" and ok: "\<forall>p \<in> set o1. pkt_key p = K"
      by blast
    from m Cons.prems(2) have "map_of m1 A = map_of b2 A" by simp
    from Cons.IH [OF rest this] obtain out b1' b2' where
      r1: "monitor_recv cfg caps m1 cs = (out, Inr b1')" and
      r2: "monitor_recv cfg caps b2 (filter (carries cfg caps A) cs) =
             (filter (\<lambda>p. pkt_key p = A) out, Inr b2')" and
      e: "map_of b1' A = map_of b2' A" and
      src: "\<forall>p \<in> set out. \<exists>c \<in> set cs. carries cfg caps (pkt_key p) c"
      by blast
    have f: "filter (\<lambda>p. pkt_key p = A) o1 = []"
      using ok False by (auto simp: filter_empty_conv)
    have "\<forall>p \<in> set (o1 @ out). \<exists>c' \<in> set (c # cs). carries cfg caps (pkt_key p) c'"
      using ok K src by auto
    with s1 r1 r2 e nA f show ?thesis by simp
  qed
qed

lemma filter_one_side:
  assumes "\<forall>x \<in> set xs. P x" and "\<forall>y \<in> set ys. \<not> P y" and "zs \<in> shuffles xs ys"
  shows "filter P zs = xs"
proof -
  have "filter P zs \<in> filter P ` shuffles xs ys" using assms(3) by blast
  then have "filter P zs \<in> shuffles (filter P xs) (filter P ys)"
    by (simp only: filter_shuffles)
  moreover have "filter P xs = xs" using assms(1) by (simp add: filter_id_conv)
  moreover have "filter P ys = []" using assms(2) by (simp add: filter_empty_conv)
  ultimately show ?thesis by simp
qed

text \<open>
  Two keys, any interleaving of their words: each key gets the packets it would
  get alone, and no other packet is handed on.
\<close>

theorem two_streams_interleaved:
  assumes d: "has_tdata caps" and u: "\<not> has_tuser caps" and ne: "A \<noteq> B"
    and a: "\<forall>c \<in> set csA. carries cfg caps A c"
    and b: "\<forall>c \<in> set csB. carries cfg caps B c"
    and sh: "cs \<in> shuffles csA csB"
  shows "\<exists>out buf'. monitor_recv cfg caps [] cs = (out, Inr buf') \<and>
           filter (\<lambda>p. pkt_key p = A) out = fst (monitor_recv cfg caps [] csA) \<and>
           filter (\<lambda>p. pkt_key p = B) out = fst (monitor_recv cfg caps [] csB) \<and>
           (\<forall>p \<in> set out. pkt_key p = A \<or> pkt_key p = B)"
proof -
  have cs: "set cs = set csA \<union> set csB"
    using sh by (rule set_shuffles)
  with a b have all: "\<forall>c \<in> set cs. \<exists>K. carries cfg caps K c" by blast
  have nb: "\<forall>c \<in> set csB. \<not> carries cfg caps A c"
    using b ne carries_unique by blast
  have na: "\<forall>c \<in> set csA. \<not> carries cfg caps B c"
    using a ne carries_unique by blast
  have fa: "filter (carries cfg caps A) cs = csA"
    using a nb sh by (rule filter_one_side)
  have "cs \<in> shuffles csB csA" using sh by (simp add: shuffles_commutes)
  with b na have fb: "filter (carries cfg caps B) cs = csB"
    by (rule filter_one_side)
  from streams_independent [OF d u all, of "[]" A "[]"] fa obtain out b1 b2 where
    run: "monitor_recv cfg caps [] cs = (out, Inr b1)" and
    ra: "monitor_recv cfg caps [] csA = (filter (\<lambda>p. pkt_key p = A) out, Inr b2)" and
    src: "\<forall>p \<in> set out. \<exists>c \<in> set cs. carries cfg caps (pkt_key p) c"
    by auto
  from streams_independent [OF d u all, of "[]" B "[]"] fb run obtain b3 where
    rb: "monitor_recv cfg caps [] csB = (filter (\<lambda>p. pkt_key p = B) out, Inr b3)"
    by auto
  have keys: "\<forall>p \<in> set out. pkt_key p = A \<or> pkt_key p = B"
  proof
    fix p
    assume "p \<in> set out"
    with src obtain c where "c \<in> set cs" and "carries cfg caps (pkt_key p) c" by blast
    with cs a b show "pkt_key p = A \<or> pkt_key p = B"
      using carries_unique by blast
  qed
  from run ra rb keys show ?thesis by simp
qed

section \<open>The claims\<close>

text \<open>
  C1 (round trip). The claim asks that the words \<^verbatim>\<open>_send_bytes\<close> produces for a
  byte sequence are reassembled by \<^verbatim>\<open>_monitor_recv\<close> into one packet with that
  payload. Evaluated on the one-byte sequence \<open>[0x11]\<close> on a four-lane bus, for both
  settings of \<^verbatim>\<open>lsb_first\<close>: the encoder sends one word, with \<^verbatim>\<open>tlast\<close> set, and
  the monitor hands on no packet at all.
\<close>

theorem roundtrip_single_word_lost:
  "send_bytes (master4 True) stream_caps False [0x11] stream_bus =
     Some (Inr ([word4 ''XXXXXXXXXXXXXXXXXXXXXXXX00010001'' ''0001'' ''0001'' ''1''], stream_bus))
   \<and> monitor_recv (monitor4 True) stream_caps []
       (map on_bus [word4 ''XXXXXXXXXXXXXXXXXXXXXXXX00010001'' ''0001'' ''0001'' ''1''])
     = ([], Inr [])
   \<and> send_bytes (master4 False) stream_caps False [0x11] stream_bus =
     Some (Inr ([word4 ''00010001XXXXXXXXXXXXXXXXXXXXXXXX'' ''1000'' ''1000'' ''1''], stream_bus))
   \<and> monitor_recv (monitor4 False) stream_caps []
       (map on_bus [word4 ''00010001XXXXXXXXXXXXXXXXXXXXXXXX'' ''1000'' ''1000'' ''1''])
     = ([], Inr [])"
  by code_simp

text \<open>
  C2 (a last word completes a packet). The claim asks that a word with \<^verbatim>\<open>tlast\<close> set
  is handed on as a packet also when nothing is buffered for its key. Evaluated on
  such a word, four data lanes, with an empty \<^verbatim>\<open>packet_buf\<close>: the cycle transfers
  the word, the \<^verbatim>\<open>except KeyError\<close> block builds the packet of its four bytes, and
  nothing is handed to \<^verbatim>\<open>self._recv\<close>.
\<close>

theorem last_word_without_buffer_not_emitted:
  "transfers stream_caps
     (on_bus (word4 ''01000100001100110010001000010001'' ''1111'' ''1111'' ''1''))
   \<and> monitor_cycle (monitor4 True) stream_caps []
       (on_bus (word4 ''01000100001100110010001000010001'' ''1111'' ''1111'' ''1''))
     = Inr ([], [])
   \<and> recv_last_except (monitor4 True) stream_caps (None, None)
       (word4 ''01000100001100110010001000010001'' ''1111'' ''1111'' ''1'')
       [0x11, 0x22, 0x33, 0x44] []
     = Inr (data_packet [0x11, 0x22, 0x33, 0x44])"
  by code_simp

text \<open>
  C3 (classification of a lane), as the claim states it, fails on two points. A
  Position lane, (keep, strb) = (1, 0), is not left out of the payload: lane 2 of
  the first word below puts a zero byte between \<open>0x11\<close> and \<open>0x33\<close> of the packet.
  And with \<^verbatim>\<open>tstrb\<close> absent the lanes are not all (1, 1): \<^verbatim>\<open>tstrb\<close> reads as
  \<^verbatim>\<open>tkeep\<close>, so lane 0 of a word with keep \<open>0001\<close> is (0, 0).
\<close>

theorem position_byte_in_payload:
  "monitor_recv (monitor4 True) stream_caps []
     (map on_bus [word4 ''01000100001100110010001000010001'' ''1111'' ''1101'' ''0'',
                  word4 ''XXXXXXXXXXXXXXXXXXXXXXXX01010101'' ''0001'' ''0001'' ''1''])
     = ([data_packet [0x11, 0, 0x33, 0x44, 0x55]], Inr [])
   \<and> byte_type (monitor4 True) (stream_caps\<lparr>has_tstrb := False\<rparr>)
       (word4 ''XXXXXXXXXXXXXXXXXXXXXXXX01010101'' ''0001'' ''0001'' ''1'') 0 = Inr ''00''"
  by code_simp

text \<open>
  C3, amended. For a lane whose two qualifier bits resolve to \<open>k'\<close> and \<open>t'\<close>:
  (1, 1) appends the lane's data byte to the payload and its share of \<^verbatim>\<open>tuser\<close> to
  the byte-wise side channel; (1, 0) appends a zero byte to the payload and a zero
  to the byte-wise side channel; (0, 1) raises \<^verbatim>\<open>AXIS_ProtocolError\<close>; (0, 0) appends
  nothing. Without \<^verbatim>\<open>tkeep\<close> the keep bit reads as 1, and without \<^verbatim>\<open>tstrb\<close> the strb
  bit is the keep bit, so that every lane is (1, 1) when both are absent.
\<close>

theorem lane_step_classes:
  assumes "str_at (keep_binstr cfg caps s) b = Inr k"
    and "str_at (strb_binstr cfg caps s) b = Inr t"
    and "resolve_char k = Inr k'" and "resolve_char t = Inr t'"
  shows "(k' = CHR ''1'' \<and> t' = CHR ''1'' \<longrightarrow>
            (has_tdata caps \<longrightarrow> lane_data s b = Inr v) \<longrightarrow>
            (has_tuser caps \<and> tuser_bytewise cfg \<longrightarrow> lane_user cfg s b = Inr u) \<longrightarrow>
            lane_step cfg caps s b (fd, fu) =
              Inr (if has_tdata caps then fd @ [v] else fd,
                   if has_tuser caps \<and> tuser_bytewise cfg then fu @ [u] else fu))
       \<and> (k' = CHR ''1'' \<and> t' = CHR ''0'' \<longrightarrow>
            lane_step cfg caps s b (fd, fu) =
              Inr (if has_tdata caps then fd @ [0] else fd,
                   if has_tuser caps \<and> tuser_bytewise cfg then fu @ [0] else fu))
       \<and> (k' = CHR ''0'' \<and> t' = CHR ''1'' \<longrightarrow>
            lane_step cfg caps s b (fd, fu) = Inl AXIS_ProtocolError)
       \<and> (k' = CHR ''0'' \<and> t' = CHR ''0'' \<longrightarrow> lane_step cfg caps s b (fd, fu) = Inr (fd, fu))
       \<and> (\<not> has_tkeep caps \<longrightarrow> k' = CHR ''1'')
       \<and> (\<not> has_tstrb caps \<longrightarrow> t' = k')"
proof -
  have bt: "byte_type cfg caps s b = Inr [k', t']"
    using assms by (rule byte_type_chars)
  have absent_keep: "\<not> has_tkeep caps \<longrightarrow> k' = CHR ''1''"
    using assms(1,3) by (auto simp: keep_binstr_def str_at_def resolve_char_def split: if_splits)
  have absent_strb: "\<not> has_tstrb caps \<longrightarrow> t' = k'"
    using assms by (auto simp: strb_binstr_def)
  show ?thesis
    using absent_keep absent_strb by (simp add: lane_step_def bt)
qed

theorem lane_step_classes_witness:
  "lane_step (monitor4 True) stream_caps
     (word4 ''01000100001100110010001000010001'' ''1100'' ''1010'' ''1'') 0 ([], []) = Inr ([0x44], [])
   \<and> lane_step (monitor4 True) stream_caps
     (word4 ''01000100001100110010001000010001'' ''1100'' ''1010'' ''1'') 1 ([0x44], []) = Inr ([0x44, 0], [])
   \<and> lane_step (monitor4 True) stream_caps
     (word4 ''01000100001100110010001000010001'' ''1100'' ''1010'' ''1'') 2 ([0x44, 0], []) = Inl AXIS_ProtocolError
   \<and> lane_step (monitor4 True) stream_caps
     (word4 ''01000100001100110010001000010001'' ''1100'' ''1010'' ''1'') 3 ([0x44, 0], []) = Inr ([0x44, 0], [])"
proof -
  let ?w = "word4 ''01000100001100110010001000010001'' ''1100'' ''1010'' ''1''"
  let ?cfg = "monitor4 True"
  have k0: "str_at (keep_binstr ?cfg stream_caps ?w) 0 = Inr CHR ''1''" by code_simp
  have t0: "str_at (strb_binstr ?cfg stream_caps ?w) 0 = Inr CHR ''1''" by code_simp
  have k1: "str_at (keep_binstr ?cfg stream_caps ?w) 1 = Inr CHR ''1''" by code_simp
  have t1: "str_at (strb_binstr ?cfg stream_caps ?w) 1 = Inr CHR ''0''" by code_simp
  have k2: "str_at (keep_binstr ?cfg stream_caps ?w) 2 = Inr CHR ''0''" by code_simp
  have t2: "str_at (strb_binstr ?cfg stream_caps ?w) 2 = Inr CHR ''1''" by code_simp
  have k3: "str_at (keep_binstr ?cfg stream_caps ?w) 3 = Inr CHR ''0''" by code_simp
  have t3: "str_at (strb_binstr ?cfg stream_caps ?w) 3 = Inr CHR ''0''" by code_simp
  have r0: "resolve_char CHR ''0'' = Inr CHR ''0''" by code_simp
  have r1: "resolve_char CHR ''1'' = Inr CHR ''1''" by code_simp
  have d0: "lane_data ?w 0 = Inr 0x44" by code_simp
  have nu: "\<not> has_tuser stream_caps" by code_simp
  from lane_step_classes [OF k0 t0 r1 r1, where v = "0x44" and fd = "[]" and fu = "[]"] d0 nu
  have "lane_step ?cfg stream_caps ?w 0 ([], []) = Inr ([0x44], [])" by (simp add: stream_caps_def)
  moreover from lane_step_classes [OF k1 t1 r1 r0, where fd = "[0x44]" and fu = "[]"] nu
  have "lane_step ?cfg stream_caps ?w 1 ([0x44], []) = Inr ([0x44, 0], [])" by (simp add: stream_caps_def)
  moreover from lane_step_classes [OF k2 t2 r0 r1, where fd = "[0x44, 0]" and fu = "[]"]
  have "lane_step ?cfg stream_caps ?w 2 ([0x44, 0], []) = Inl AXIS_ProtocolError" by simp
  moreover from lane_step_classes [OF k3 t3 r0 r0, where fd = "[0x44, 0]" and fu = "[]"]
  have "lane_step ?cfg stream_caps ?w 3 ([0x44, 0], []) = Inr ([0x44, 0], [])" by simp
  ultimately show ?thesis by simp
qed

text \<open>
  C4 (invalid qualifier), as the claim states it, fails: a word with a (0, 1)
  lane does not always raise \<^verbatim>\<open>AXIS_ProtocolError\<close>. With \<^verbatim>\<open>lsb_first\<close> lane 3 is read
  before lane 2; in the word below lane 2 is (0, 1) and lane 3 is a data lane
  whose bits are unknown, so that resolving them raises the library's
  \<^verbatim>\<open>ValueError\<close> before lane 2 is looked at.
\<close>

theorem invalid_qualifier_value_error:
  "transfers stream_caps
     (on_bus (word4 ''010001000011001100100010XXXXXXXX'' ''1101'' ''1111'' ''1''))
   \<and> byte_type (monitor4 True) stream_caps
       (word4 ''010001000011001100100010XXXXXXXX'' ''1101'' ''1111'' ''1'') 2 = Inr ''01''
   \<and> monitor_cycle (monitor4 True) stream_caps []
       (on_bus (word4 ''010001000011001100100010XXXXXXXX'' ''1101'' ''1111'' ''1''))
     = Inl ValueError"
  by code_simp

text \<open>
  C4, amended. On a bus with \<^verbatim>\<open>tready\<close>, on a cycle that transfers a word with a
  lane whose qualifier bits resolve to (0, 1), the loop body ends in an
  exception: nothing is handed on and \<^verbatim>\<open>packet_buf\<close> is not touched. The exception
  is \<^verbatim>\<open>AXIS_ProtocolError\<close> when every lane of the word is readable.
\<close>

theorem invalid_qualifier_raises:
  assumes "transfers caps c" and "b \<in> set (byte_range cfg)"
    and "byte_type cfg caps (sigs c) b = Inr ''01''"
  shows "(\<exists>e. monitor_cycle cfg caps buf c = Inl e) \<and>
         ((\<forall>b' \<in> set (byte_range cfg). lane_readable cfg caps (sigs c) b') \<longrightarrow>
            monitor_cycle cfg caps buf c = Inl AXIS_ProtocolError)"
proof -
  obtain e where e: "decode_lanes cfg caps (sigs c) = Inl e"
    using lanes_loop_fails [OF assms(2,3)] by (auto simp: decode_lanes_def)
  have cyc: "monitor_cycle cfg caps buf c = Inl e"
    by (simp add: monitor_cycle_transfer [OF assms(1)] e)
  have "(\<forall>b' \<in> set (byte_range cfg). lane_readable cfg caps (sigs c) b') \<longrightarrow> e = AXIS_ProtocolError"
    using e lanes_loop_readable by (auto simp: decode_lanes_def)
  with cyc show ?thesis by auto
qed

theorem invalid_qualifier_raises_witness:
  "monitor_cycle (monitor4 True) stream_caps
     [((None, None), \<lparr>buf_data = Some [[0xAA, 0xBB, 0xCC, 0xDD]], buf_user = None\<rparr>)]
     (on_bus (word4 ''01000100001100110010001000010001'' ''1101'' ''1111'' ''1''))
   = Inl AXIS_ProtocolError"
proof -
  let ?c = "on_bus (word4 ''01000100001100110010001000010001'' ''1101'' ''1111'' ''1'')"
  let ?cfg = "monitor4 True"
  have tr: "transfers stream_caps ?c" by code_simp
  have b: "2 \<in> set (byte_range ?cfg)" by code_simp
  have bt: "byte_type ?cfg stream_caps (sigs ?c) 2 = Inr ''01''" by code_simp
  have rd: "\<forall>b' \<in> set (byte_range ?cfg). lane_readable ?cfg stream_caps (sigs ?c) b'" by code_simp
  from invalid_qualifier_raises [OF tr b bt] rd show ?thesis by blast
qed

text \<open>
  C5 (reset). A cycle in reset empties \<^verbatim>\<open>packet_buf\<close> and hands on nothing, and
  the rest of the run is the run of a monitor with nothing buffered: what it
  hands on does not depend on what was pending, so no pending byte shows up
  later and the next words of a key start a packet of their own.
\<close>

theorem reset_discards_pending:
  "in_reset c \<Longrightarrow> monitor_cycle cfg caps buf c = Inr ([], []) \<and>
     monitor_recv cfg caps buf (c # cs) = monitor_recv cfg caps [] cs"
  by (simp add: monitor_cycle_def split: prod.splits)

theorem reset_discards_pending_witness:
  "monitor_recv (monitor4 True) stream_caps
     [((None, None), \<lparr>buf_data = Some [[0xAA, 0xBB, 0xCC, 0xDD]], buf_user = None\<rparr>)]
     (reset_cycle # map on_bus [word4 ''01000100001100110010001000010001'' ''1111'' ''1111'' ''0'',
                    word4 ''XXXXXXXXXXXXXXXXXXXXXXXX01010101'' ''0001'' ''0001'' ''1''])
   = ([data_packet [0x11, 0x22, 0x33, 0x44, 0x55]], Inr [])"
proof -
  have r: "in_reset reset_cycle" by (simp add: reset_cycle_def)
  have "monitor_recv (monitor4 True) stream_caps []
     (map on_bus [word4 ''01000100001100110010001000010001'' ''1111'' ''1111'' ''0'',
                    word4 ''XXXXXXXXXXXXXXXXXXXXXXXX01010101'' ''0001'' ''0001'' ''1''])
    = ([data_packet [0x11, 0x22, 0x33, 0x44, 0x55]], Inr [])" by code_simp
  with reset_discards_pending [OF r] show ?thesis by simp
qed

text \<open>
  C6 (multiplexing). The claim asks for one packet per key when the words of two
  keys are interleaved. Evaluated with \<^verbatim>\<open>tid\<close> 2 sending two words and \<^verbatim>\<open>tid\<close> 1
  sending one word in between: the packet of \<^verbatim>\<open>tid\<close> 2 is handed on, the
  one-word packet of \<^verbatim>\<open>tid\<close> 1 is not.
\<close>

theorem interleaved_single_word_lost:
  "monitor_recv (monitor4 True) mux_caps []
     (map on_bus
       [(word4 ''10110100101100111011001010110001'' ''1111'' ''1111'' ''0'')\<lparr>tid := ''10''\<rparr>,
        (word4 ''10100100101000111010001010100001'' ''1111'' ''1111'' ''1'')\<lparr>tid := ''01''\<rparr>,
        (word4 ''XXXXXXXXXXXXXXXXXXXXXXXX10110101'' ''0001'' ''0001'' ''1'')\<lparr>tid := ''10''\<rparr>])
   = ([\<lparr>pkt_data = Some [0xB1, 0xB2, 0xB3, 0xB4, 0xB5], pkt_user = None,
        pkt_tid = Some 2, pkt_tdest = None\<rparr>], Inr [])"
  by code_simp

text \<open>
  C7 (the five-byte scenario). With four lanes and \<^verbatim>\<open>lsb_first\<close>, the bytes
  \<open>0x11 .. 0x55\<close> are sent as two words: the first carries \<open>0x44 0x33 0x22 0x11\<close>,
  keep \<open>1111\<close>, last 0; the second carries three padding lanes and \<open>0x55\<close>, keep
  \<open>0001\<close>, last 1. The monitor reassembles the two words into the five bytes.
\<close>

theorem scenario_five_bytes:
  "send_bytes (master4 True) stream_caps False [0x11, 0x22, 0x33, 0x44, 0x55] stream_bus =
     Some (Inr ([word4 ''01000100001100110010001000010001'' ''1111'' ''1111'' ''0'',
                 word4 ''XXXXXXXXXXXXXXXXXXXXXXXX01010101'' ''0001'' ''0001'' ''1''], stream_bus))
   \<and> lane_data (word4 ''01000100001100110010001000010001'' ''1111'' ''1111'' ''0'') 0 = Inr 0x44
   \<and> lane_data (word4 ''01000100001100110010001000010001'' ''1111'' ''1111'' ''0'') 1 = Inr 0x33
   \<and> lane_data (word4 ''01000100001100110010001000010001'' ''1111'' ''1111'' ''0'') 2 = Inr 0x22
   \<and> lane_data (word4 ''01000100001100110010001000010001'' ''1111'' ''1111'' ''0'') 3 = Inr 0x11
   \<and> lane_data (word4 ''XXXXXXXXXXXXXXXXXXXXXXXX01010101'' ''0001'' ''0001'' ''1'') 3 = Inr 0x55
   \<and> monitor_recv (monitor4 True) stream_caps []
       (map on_bus [word4 ''01000100001100110010001000010001'' ''1111'' ''1111'' ''0'',
                    word4 ''XXXXXXXXXXXXXXXXXXXXXXXX01010101'' ''0001'' ''0001'' ''1''])
     = ([data_packet [0x11, 0x22, 0x33, 0x44, 0x55]], Inr [])"
  by code_simp




text \<open>
  C9 (construction). For a data signal of at least one bit, the driver's
  constructor fails, with \<^verbatim>\<open>AttributeError\<close>, exactly when the width of \<^verbatim>\<open>tdata\<close> is
  not a multiple of 8; the monitor's fails exactly then, or when \<^verbatim>\<open>tuser\<close> is read
  byte-wise and its width is not a multiple of the number of lanes. A failed
  constructor returns no instance and has driven no signal.
\<close>

theorem init_fails_exactly:
  assumes "has_tdata caps \<longrightarrow> 0 < length (tdata bus)"
  shows "(AXIS_Master_init caps bus lsbf = Inl AttributeError
            \<longleftrightarrow> has_tdata caps \<and> length (tdata bus) mod 8 \<noteq> 0)
       \<and> (is_ok (AXIS_Master_init caps bus lsbf)
            \<longleftrightarrow> \<not> (has_tdata caps \<and> length (tdata bus) mod 8 \<noteq> 0))
       \<and> (AXIS_Monitor_init caps bus lsbf bytewise = Inl AttributeError
            \<longleftrightarrow> (has_tdata caps \<and> length (tdata bus) mod 8 \<noteq> 0) \<or>
                (has_tuser caps \<and> bytewise \<and>
                 length (tuser bus) mod (if has_tdata caps then length (tdata bus) div 8 else 1) \<noteq> 0))
       \<and> (is_ok (AXIS_Monitor_init caps bus lsbf bytewise)
            \<longleftrightarrow> \<not> ((has_tdata caps \<and> length (tdata bus) mod 8 \<noteq> 0) \<or>
                (has_tuser caps \<and> bytewise \<and>
                 length (tuser bus) mod (if has_tdata caps then length (tdata bus) div 8 else 1) \<noteq> 0)))"
  using assms
  by (auto simp: AXIS_Master_init_def AXIS_Monitor_init_def Let_def is_ok_def split: if_splits)

theorem init_fails_exactly_witness:
  "AXIS_Master_init stream_caps (stream_bus\<lparr>tdata := replicate 12 CHR ''x''\<rparr>) True = Inl AttributeError
   \<and> AXIS_Monitor_init stream_caps (stream_bus\<lparr>tdata := replicate 12 CHR ''x''\<rparr>) True False = Inl AttributeError
   \<and> AXIS_Monitor_init user_caps (stream_bus\<lparr>tuser := ''xxxxxx''\<rparr>) True True = Inl AttributeError
   \<and> is_ok (AXIS_Monitor_init user_caps (stream_bus\<lparr>tuser := ''xxxxxx''\<rparr>) True False)
   \<and> is_ok (AXIS_Master_init user_caps (stream_bus\<lparr>tuser := ''xxxxxx''\<rparr>) True)"
proof -
  have a: "has_tdata stream_caps \<longrightarrow> 0 < length (tdata (stream_bus\<lparr>tdata := replicate 12 CHR ''x''\<rparr>))"
    by simp
  have b: "has_tdata user_caps \<longrightarrow> 0 < length (tdata (stream_bus\<lparr>tuser := ''xxxxxx''\<rparr>))"
    by (simp add: stream_bus_def)
  from init_fails_exactly [OF a, of True False] init_fails_exactly [OF b, of True True]
    init_fails_exactly [OF b, of True False]
  show ?thesis by (simp add: stream_caps_def user_caps_def stream_bus_def)
qed

text \<open>
  C10 (an exception ends the loop). Once a cycle has raised, the run is over:
  whatever cycles follow, the packets handed on and the exception stay what they
  were.
\<close>

theorem error_ends_receive_loop:
  "monitor_recv cfg caps buf cs = (ps, Inl e) \<Longrightarrow>
     monitor_recv cfg caps buf (cs @ cs') = (ps, Inl e)"
proof (induction cs arbitrary: buf ps)
  case Nil
  then show ?case by simp
next
  case (Cons c cs)
  show ?case
  proof (cases "monitor_cycle cfg caps buf c")
    case (Inl e')
    with Cons.prems show ?thesis by simp
  next
    case (Inr r)
    obtain buf' out where r: "r = (buf', out)" by (cases r)
    obtain qs r' where rest: "monitor_recv cfg caps buf' cs = (qs, r')"
      by (cases "monitor_recv cfg caps buf' cs")
    from Cons.prems Inr r rest have "r' = Inl e" and ps: "ps = out @ qs" by auto
    with rest Cons.IH have "monitor_recv cfg caps buf' (cs @ cs') = (qs, Inl e)" by blast
    with Inr r ps show ?thesis by simp
  qed
qed

theorem error_ends_receive_loop_witness:
  "monitor_recv (monitor4 True) stream_caps []
     (map on_bus [word4 ''01000100001100110010001000010001'' ''1111'' ''1111'' ''0'',
                  word4 ''01000100001100110010001000010001'' ''1101'' ''1111'' ''0'']
      @ map on_bus [word4 ''01000100001100110010001000010001'' ''1111'' ''1111'' ''0'',
                    word4 ''XXXXXXXXXXXXXXXXXXXXXXXX01010101'' ''0001'' ''0001'' ''1''])
   = ([], Inl AXIS_ProtocolError)"
proof -
  have "monitor_recv (monitor4 True) stream_caps []
     (map on_bus [word4 ''01000100001100110010001000010001'' ''1111'' ''1111'' ''0'',
                  word4 ''01000100001100110010001000010001'' ''1101'' ''1111'' ''0''])
     = ([], Inl AXIS_ProtocolError)"
    by code_simp
  from error_ends_receive_loop [OF this] show ?thesis .
qed

end
